theory Spec2Isabelle
  imports Main "HOL-Library.Word"
begin

unbundle bit_operations_syntax

section \<open>Filesystem housekeeping: path and volume names\<close>

text \<open>
  A Go \<^verbatim>\<open>string\<close> is a sequence of bytes and \<^verbatim>\<open>len\<close> counts bytes; so does
  \<^typ>\<open>string\<close> here (\<^typ>\<open>char\<close> is a byte).
\<close>

definition pathMax :: nat where
  "pathMax = 4096"

text \<open>
  \<^verbatim>\<open>utf8.ValidString\<close> of the Go standard library.  \<open>first\<close> is its table of leading
  bytes: the length of the sequence and the range accepted for the second byte
  (\<open>None\<close> is the table's \<^verbatim>\<open>xx\<close>, an invalid leading byte); every later byte of a
  sequence lies in \<open>locb .. hicb\<close>.
\<close>

definition locb :: nat where
  "locb = 0x80"

definition hicb :: nat where
  "hicb = 0xBF"

definition first :: "nat \<Rightarrow> (nat \<times> nat \<times> nat) option" where
  "first x =
     (if 0xC2 \<le> x \<and> x \<le> 0xDF then Some (2, locb, hicb)
      else if x = 0xE0 then Some (3, 0xA0, hicb)
      else if 0xE1 \<le> x \<and> x \<le> 0xEC then Some (3, locb, hicb)
      else if x = 0xED then Some (3, locb, 0x9F)
      else if 0xEE \<le> x \<and> x \<le> 0xEF then Some (3, locb, hicb)
      else if x = 0xF0 then Some (4, 0x90, hicb)
      else if 0xF1 \<le> x \<and> x \<le> 0xF3 then Some (4, locb, hicb)
      else if x = 0xF4 then Some (4, locb, 0x8F)
      else None)"

definition outside :: "char \<Rightarrow> nat \<Rightarrow> nat \<Rightarrow> bool" where
  "outside c lo hi = (of_char c < lo \<or> hi < of_char c)"

fun ValidString :: "string \<Rightarrow> bool" where
  "ValidString [] = True"
| "ValidString (si # rest) =
     (if (of_char si :: nat) < 0x80 then ValidString rest
      else case first (of_char si) of
        None \<Rightarrow> False
      | Some (sz, lo, hi) \<Rightarrow>
          if length rest < sz - 1 then False
          else if outside (rest ! 0) lo hi then False
          else if sz = 2 then ValidString (drop 1 rest)
          else if outside (rest ! 1) locb hicb then False
          else if sz = 3 then ValidString (drop 2 rest)
          else if outside (rest ! 2) locb hicb then False
          else ValidString (drop 3 rest))"

text \<open>\<^verbatim>\<open>strings.ContainsAny\<close>: some byte of \<open>s\<close> is one of \<open>chars\<close> (ASCII \<open>chars\<close>).\<close>

definition ContainsAny :: "string \<Rightarrow> string \<Rightarrow> bool" where
  "ContainsAny s chars = list_ex (\<lambda>c. c \<in> set chars) s"

text \<open>\<^verbatim>\<open>isValidPath\<close> verifies if a path name is in accordance with FS limitations.\<close>

definition isValidPath :: "string \<Rightarrow> bool" where
  "isValidPath path =
     (if length path > pathMax \<or> length path = 0 then False
      else if \<not> ValidString path then False
      else True)"

text \<open>\<^verbatim>\<open>isValidVolname\<close> verifies a volume name in accordance with object layer requirements.\<close>

definition isValidVolname :: "string \<Rightarrow> bool" where
  "isValidVolname volname =
     (if length volname < 3 \<or> length volname > 63 then False
      else \<not> ContainsAny volname ''/'')"

section \<open>The erasure-coded write path\<close>

subsection \<open>Data model\<close>

type_synonym byte = "8 word"

text \<open>
  Modelled from the spec: the declarations of the structs \<^verbatim>\<open>checkSumInfo\<close> and
  \<^verbatim>\<open>erasureInfo\<close> are missing.  A checksum entry is ``part name, algorithm tag and hash
  digest (hex-encoded string)''; an erasure descriptor is block size, data-shard count,
  parity-shard count, algorithm tag, distribution vector and list of checksum entries.
  The field names are those \<^verbatim>\<open>erasureCreateFile\<close> uses.  Go's \<^verbatim>\<open>int\<close> and \<^verbatim>\<open>int64\<close> are
  \<^typ>\<open>int\<close>: the only arithmetic is \<^verbatim>\<open>size += int64(n)\<close>, which stays below \<open>2 ^ 63\<close> for
  any stream that can be read, and \<^verbatim>\<open>Distribution[index] - 1\<close>, whose wrap-around at the
  least integer is out of range as an index just as the negative number is.
\<close>

record checkSumInfo =
  Name :: string
  Algorithm :: string
  Hash :: string

text \<open>
  The field \<^verbatim>\<open>Checksum\<close> is a Go slice, and \<^verbatim>\<open>erasureCreateFile\<close> appends to it.  A slice
  is a header: its backing array, the offset of its first element in that array, its
  length and its capacity.  Assigning a descriptor copies the header, not the array, so
  a descriptor and its copies share one backing array.  The backing arrays live in a
  memory, a list of arrays, and \<open>Array\<close> is an index into it; \<open>elems\<close> reads the
  elements of a slice.  The \<^verbatim>\<open>nil\<close> slice has length and capacity 0 and no array behind it:
  a slice of length 0 has no element to read.
  A header of positive capacity names an array of the memory that holds its \<open>Offset\<close> +
  \<open>Cap\<close> positions; Go's run time keeps it so.  The distribution is a slice as well, but
  it is only read, so its elements stand for it.
\<close>

record slice =
  Array :: nat
  Offset :: nat
  Len :: nat
  Cap :: nat

type_synonym memory = "checkSumInfo list list"

definition elems :: "memory \<Rightarrow> slice \<Rightarrow> checkSumInfo list" where
  "elems mem s = (if Len s = 0 then [] else take (Len s) (drop (Offset s) (mem ! Array s)))"

definition nilSlice :: slice where
  "nilSlice = \<lparr>Array = 0, Offset = 0, Len = 0, Cap = 0\<rparr>"

record erasureInfo =
  AlgorithmTag :: string
  DataBlocks :: int
  ParityBlocks :: int
  BlockSize :: int
  Distribution :: "int list"
  Checksum :: slice

text \<open>The zero values that \<^verbatim>\<open>make\<close> fills a fresh slice with.\<close>

definition zeroCheckSumInfo :: checkSumInfo where
  "zeroCheckSumInfo = \<lparr>Name = [], Algorithm = [], Hash = []\<rparr>"

definition zeroErasureInfo :: erasureInfo where
  "zeroErasureInfo =
     \<lparr>AlgorithmTag = [], DataBlocks = 0, ParityBlocks = 0, BlockSize = 0,
      Distribution = [], Checksum = nilSlice\<rparr>"

text \<open>
  The values of Go's \<^verbatim>\<open>error\<close> that occur: the two signals of \<^verbatim>\<open>io.ReadFull\<close>, a failure
  of the stream, the three faults of the codec, the internal \<^verbatim>\<open>errXLWriteQuorum\<close> and
  what \<^verbatim>\<open>toObjectErr\<close> makes of it, and the error of an endpoint's append.
\<close>

datatype error =
    EOF
  | ErrUnexpectedEOF
  | ReadFailure
  | CodecInit
  | Split
  | Encode
  | errXLWriteQuorum
  | WriteQuorumLost string string
  | AppendFailed

text \<open>
  A call that does not return: a run-time panic of Go (an index out of range, a negative
  length given to \<^verbatim>\<open>make\<close>), or the failure of the geometry selector, whose result
  \<^verbatim>\<open>erasureCreateFile\<close> takes without any error to check.
\<close>

datatype abort =
    GeometryUnavailable
  | IndexOutOfRange
  | MakeSliceLenOutOfRange

subsection \<open>External collaborators\<close>

text \<open>
  Modelled from the spec: the interface \<^verbatim>\<open>StorageAPI\<close> and its implementations are missing.
  ``\<open>append(volume, path, bytes) \<rightarrow> ok | err\<close> appends \<open>bytes\<close> (possibly empty) to the named
  resource''; ``endpoint handles may be absent (nil-equivalent) in the input vector''.
  An endpoint is modelled by what the write path can observe of it:
  \<open>faults\<close> scripts the outcome of its next calls of \<^verbatim>\<open>AppendFile\<close> (\<open>True\<close>: the call
  returns an error; an exhausted script: the call succeeds), and \<open>calls\<close> records every
  call it has received: volume, path, bytes and whether the append succeeded.  An absent
  (\<^verbatim>\<open>nil\<close>) handle is \<open>None\<close>.
\<close>

record disk =
  faults :: "bool list"
  calls :: "(string \<times> string \<times> byte list \<times> bool) list"

definition AppendFile :: "disk \<Rightarrow> string \<Rightarrow> string \<Rightarrow> byte list \<Rightarrow> error option \<times> disk" where
  "AppendFile d volume path buf =
     (case faults d of
        [] \<Rightarrow> (None, d\<lparr>calls := calls d @ [(volume, path, buf, True)]\<rparr>)
      | f # fs \<Rightarrow>
          (if f then Some AppendFailed else None,
           d\<lparr>faults := fs, calls := calls d @ [(volume, path, buf, \<not> f)]\<rparr>))"

text \<open>
  The input stream (\<^verbatim>\<open>io.Reader\<close>): the bytes still to come and how the stream ends once
  they are exhausted, with \<^verbatim>\<open>io.EOF\<close> or, for a \<open>broken\<close> stream, with an I/O error.
  \<^verbatim>\<open>io.ReadFull(data, buf)\<close> reads exactly \<^verbatim>\<open>len(buf)\<close> bytes: it returns the number of bytes
  read, \<^verbatim>\<open>buf[:n]\<close>, the error and the stream after the read.  A buffer of length 0 is
  read in full at once, with no error.
\<close>

record reader =
  pending :: "byte list"
  broken :: bool

definition ReadFull :: "reader \<Rightarrow> nat \<Rightarrow> nat \<times> byte list \<times> error option \<times> reader" where
  "ReadFull data len =
     (if len = 0 then (0, [], None, data)
      else if len \<le> length (pending data)
      then (len, take len (pending data), None, data\<lparr>pending := drop len (pending data)\<rparr>)
      else (length (pending data), pending data,
            Some (if broken data then ReadFailure
                  else if pending data = [] then EOF else ErrUnexpectedEOF),
            data\<lparr>pending := []\<rparr>))"

text \<open>
  What the write path only passes on: the digest of \<^verbatim>\<open>crypto/sha512\<close>; the Galois-field
  product that gives the byte of parity shard \<open>j\<close> from the bytes of the data shards at
  the same offset (arguments: data shards, parity shards, \<open>j\<close>, the column of data
  bytes); and the capacity that Go's run time chooses for the new array when \<^verbatim>\<open>append\<close>
  has to grow a slice of a given capacity, which the language leaves open.
\<close>

record lib =
  sha512 :: "byte list \<Rightarrow> byte list"
  parity :: "nat \<Rightarrow> nat \<Rightarrow> nat \<Rightarrow> byte list \<Rightarrow> byte"
  growcap :: "nat \<Rightarrow> nat"

text \<open>
  Go's builtin \<^verbatim>\<open>append\<close> of one element.  With spare capacity the element is written
  into the backing array, right after the last element of the slice, and the header
  returned is on the same array: every slice on that array that reaches the position
  sees the write.  Without spare capacity the elements are copied into a new array,
  large enough for the new length, and the header returned is on the new array.
\<close>

definition appendSlice :: "lib \<Rightarrow> memory \<Rightarrow> slice \<Rightarrow> checkSumInfo \<Rightarrow> memory \<times> slice" where
  "appendSlice l mem s x =
     (if Len s < Cap s
      then (mem[Array s := (mem ! Array s)[Offset s + Len s := x]], s\<lparr>Len := Len s + 1\<rparr>)
      else
        let newcap = max (Len s + 1) (growcap l (Cap s))
        in (mem @ [elems mem s @ [x] @ replicate (newcap - (Len s + 1)) zeroCheckSumInfo],
            \<lparr>Array = length mem, Offset = 0, Len = Len s + 1, Cap = newcap\<rparr>))"

text \<open>
  A streaming hash (\<^verbatim>\<open>hash.Hash\<close>) is the bytes written to it so far; \<^verbatim>\<open>Sum(nil)\<close> is the
  digest of these bytes.
\<close>

type_synonym hashWriter = "byte list"

definition Write :: "hashWriter \<Rightarrow> byte list \<Rightarrow> hashWriter" where
  "Write h p = h @ p"

definition Sum :: "lib \<Rightarrow> hashWriter \<Rightarrow> byte list" where
  "Sum l h = sha512 l h"

text \<open>\<^verbatim>\<open>hex.EncodeToString\<close>: two lower-case hexadecimal digits per byte.\<close>

definition hextable :: string where
  "hextable = ''0123456789abcdef''"

definition EncodeToString :: "byte list \<Rightarrow> string" where
  "EncodeToString src =
     concat (map (\<lambda>v. [hextable ! unat (drop_bit 4 v), hextable ! unat (v AND 0x0f)]) src)"

text \<open>
  Modelled from the spec: the codec library behind \<^verbatim>\<open>reedsolomon.New\<close>, \<^verbatim>\<open>Split\<close> and
  \<^verbatim>\<open>Encode\<close> is missing.  It ``can split a contiguous buffer into \<open>D\<close> equal data shards
  (zero-padding the tail), allocate \<open>P\<close> shards of equal length, and populate parity.
  Shard length is \<open>ceil(n / D)\<close>''; its errors are ``\<open>CodecInit\<close> (invalid \<open>D\<close>, \<open>P\<close>);
  \<open>Split\<close> (buffer too small for split invariants); \<open>Encode\<close> (internal codec failure)''.
  By the library's own contract \<^verbatim>\<open>New\<close> refuses shard counts that are not positive or
  exceed 255 together, \<^verbatim>\<open>Split\<close> refuses an empty buffer, and \<^verbatim>\<open>Encode\<close> refuses shards
  that are missing, empty or of unequal length.
\<close>

definition New :: "int \<Rightarrow> int \<Rightarrow> error + (nat \<times> nat)" where
  "New dataShards parityShards =
     (if dataShards \<le> 0 \<or> parityShards \<le> 0 then Inl CodecInit
      else if dataShards + parityShards > 255 then Inl CodecInit
      else Inr (nat dataShards, nat parityShards))"

definition rsSplit :: "nat \<times> nat \<Rightarrow> byte list \<Rightarrow> error + byte list list" where
  "rsSplit rs data =
     (case rs of (dataShards, parityShards) \<Rightarrow>
        if length data = 0 then Inl Split
        else
          let perShard = (length data + dataShards - 1) div dataShards;
              padded = data @ replicate ((dataShards + parityShards) * perShard - length data) 0
          in Inr (map (\<lambda>i. take perShard (drop (i * perShard) padded))
                    [0..<dataShards + parityShards]))"

definition rsEncode :: "lib \<Rightarrow> nat \<times> nat \<Rightarrow> byte list list \<Rightarrow> error + byte list list" where
  "rsEncode l rs shards =
     (case rs of (dataShards, parityShards) \<Rightarrow>
        if length shards \<noteq> dataShards + parityShards then Inl Encode
        else if shards = [] \<or> hd shards = [] \<or> list_ex (\<lambda>s. length s \<noteq> length (hd shards)) shards
        then Inl Encode
        else
          Inr (take dataShards shards @
               map (\<lambda>j. map (\<lambda>c. parity l dataShards parityShards j
                                   (map (\<lambda>s. s ! c) (take dataShards shards)))
                          [0..<length (hd shards)])
                 [0..<parityShards]))"

subsection \<open>Helpers declared elsewhere in the repository\<close>

text \<open>
  Modelled from the spec: \<^verbatim>\<open>IsValid\<close> of \<^verbatim>\<open>erasureInfo\<close> is missing.  ``A descriptor is
  valid if all fields are populated and \<open>dist\<close> is a permutation of \<open>1..N\<close>'', with block
  size a positive integer and \<open>N = D + P\<close>.
\<close>

definition IsValid :: "erasureInfo \<Rightarrow> bool" where
  "IsValid e =
     (AlgorithmTag e \<noteq> [] \<and> 0 < BlockSize e \<and> 0 < DataBlocks e \<and> 0 < ParityBlocks e
      \<and> sort (Distribution e) = [1..DataBlocks e + ParityBlocks e])"

text \<open>
  Modelled from the spec: \<^verbatim>\<open>pickValidErasureInfo\<close> is missing.  ``The first valid
  descriptor is chosen; order is positional.  If no valid descriptor exists, the write
  fails with \<open>GeometryUnavailable\<close>.''
\<close>

definition pickValidErasureInfo :: "erasureInfo list \<Rightarrow> abort + erasureInfo" where
  "pickValidErasureInfo eInfos =
     (case find IsValid eInfos of
        None \<Rightarrow> Inl GeometryUnavailable
      | Some eInfo \<Rightarrow> Inr eInfo)"

text \<open>
  Modelled from the spec: \<^verbatim>\<open>newHashWriters\<close> is missing.  The shard hasher ``maintains
  \<open>N\<close> independent streaming hash computations'', each fresh at the start of a write.
\<close>

definition newHashWriters :: "nat \<Rightarrow> hashWriter list" where
  "newHashWriters diskCount = replicate diskCount []"

text \<open>
  Modelled from the spec: \<^verbatim>\<open>isQuorum\<close> is missing.  ``Let \<open>F\<close> = number of endpoints whose
  append returned an error.  Success iff \<open>N - F \<ge> Q\<close>.''  The function sees the vector of
  the appends' errors only, so \<open>N\<close> is its length and \<open>F\<close> the number of its errors.
\<close>

definition errCount :: "error option list \<Rightarrow> nat" where
  "errCount errs = length (filter (\<lambda>err. err \<noteq> None) errs)"

definition isQuorum :: "error option list \<Rightarrow> int \<Rightarrow> bool" where
  "isQuorum errs minQuorumCount = (minQuorumCount \<le> int (length errs) - int (errCount errs))"

text \<open>
  Modelled from the spec: \<^verbatim>\<open>toObjectErr\<close> is missing.  ``On quorum failure, returns
  \<open>WriteQuorumLost(volume, path)\<close>.''
\<close>

definition toObjectErr :: "error \<Rightarrow> string \<Rightarrow> string \<Rightarrow> error" where
  "toObjectErr err volume path =
     (case err of errXLWriteQuorum \<Rightarrow> WriteQuorumLost volume path | _ \<Rightarrow> err)"

subsection \<open>\<^verbatim>\<open>encodeData\<close>\<close>

text \<open>
  Encodes the incoming data buffer into \<open>dataBlocks + parityBlocks\<close> shards.
\<close>

definition encodeData :: "lib \<Rightarrow> byte list \<Rightarrow> int \<Rightarrow> int \<Rightarrow> error + byte list list" where
  "encodeData l dataBuffer dataBlocks parityBlocks =
     (case New dataBlocks parityBlocks of
        Inl err \<Rightarrow> Inl err
      | Inr rs \<Rightarrow>
          (case rsSplit rs dataBuffer of
             Inl err \<Rightarrow> Inl err
           | Inr blocks \<Rightarrow>
               (case rsEncode l rs blocks of
                  Inl err \<Rightarrow> Inl err
                | Inr blocks' \<Rightarrow> Inr blocks')))"

subsection \<open>\<^verbatim>\<open>appendFile\<close>\<close>

text \<open>
  The body of the routine started for one present endpoint: pick the block from the
  distribution, append it, and only after a successful append feed it to the hash of
  that block.  The result is the endpoint after the call, the hashes, and the error
  stored in \<^verbatim>\<open>wErrs[index]\<close>.  An index outside \<^verbatim>\<open>distribution\<close>, \<^verbatim>\<open>enBlocks\<close> or
  \<^verbatim>\<open>hashWriters\<close> panics.
\<close>

definition routine ::
  "string \<Rightarrow> string \<Rightarrow> byte list list \<Rightarrow> int list \<Rightarrow> nat \<Rightarrow> disk \<Rightarrow> hashWriter list
   \<Rightarrow> abort + (disk \<times> hashWriter list \<times> error option)" where
  "routine volume path enBlocks distribution index dsk hashWriters =
     (if length distribution \<le> index then Inl IndexOutOfRange
      else
        let blockIndex = distribution ! index - 1 in
        if blockIndex < 0 \<or> int (length enBlocks) \<le> blockIndex then Inl IndexOutOfRange
        else
          (case AppendFile dsk volume path (enBlocks ! nat blockIndex) of
             (Some wErr, dsk') \<Rightarrow> Inr (dsk', hashWriters, Some wErr)
           | (None, dsk') \<Rightarrow>
               if int (length hashWriters) \<le> blockIndex then Inl IndexOutOfRange
               else
                 Inr (dsk',
                      hashWriters[nat blockIndex :=
                        Write (hashWriters ! nat blockIndex) (enBlocks ! nat blockIndex)],
                      None)))"

text \<open>
  The loop over \<^verbatim>\<open>range disks\<close> with the join at its end.  The routines of one stripe
  touch disjoint endpoints and error slots, and disjoint hashes when the distribution
  has no repetition, so they are run here in the order of their indices.  An absent
  endpoint is skipped: its slot of \<^verbatim>\<open>wErrs\<close> keeps the \<^verbatim>\<open>nil\<close> it was made with.
\<close>

fun fanOut ::
  "string \<Rightarrow> string \<Rightarrow> byte list list \<Rightarrow> int list \<Rightarrow> nat list
   \<Rightarrow> disk option list \<times> hashWriter list \<times> error option list
   \<Rightarrow> abort + (disk option list \<times> hashWriter list \<times> error option list)" where
  "fanOut volume path enBlocks distribution [] st = Inr st"
| "fanOut volume path enBlocks distribution (index # rest) (disks, hashWriters, wErrs) =
     (case disks ! index of
        None \<Rightarrow> fanOut volume path enBlocks distribution rest (disks, hashWriters, wErrs)
      | Some dsk \<Rightarrow>
          (case routine volume path enBlocks distribution index dsk hashWriters of
             Inl p \<Rightarrow> Inl p
           | Inr (dsk', hashWriters', wErr) \<Rightarrow>
               fanOut volume path enBlocks distribution rest
                 (disks[index := Some dsk'], hashWriters', wErrs[index := wErr])))"

text \<open>
  \<^verbatim>\<open>appendFile\<close>: the endpoints and the hashes after the stripe, and the error returned.
\<close>

definition appendFile ::
  "disk option list \<Rightarrow> string \<Rightarrow> string \<Rightarrow> byte list list \<Rightarrow> int list \<Rightarrow> hashWriter list \<Rightarrow> int
   \<Rightarrow> abort + (disk option list \<times> hashWriter list \<times> error option)" where
  "appendFile disks volume path enBlocks distribution hashWriters writeQuorum =
     (case fanOut volume path enBlocks distribution [0..<length disks]
             (disks, hashWriters, replicate (length disks) None) of
        Inl p \<Rightarrow> Inl p
      | Inr (disks', hashWriters', wErrs) \<Rightarrow>
          if \<not> isQuorum wErrs writeQuorum
          then Inr (disks', hashWriters', Some (toObjectErr errXLWriteQuorum volume path))
          else Inr (disks', hashWriters', None))"

subsection \<open>\<^verbatim>\<open>erasureCreateFile\<close>\<close>

text \<open>
  ``Save the checksums'': the loop over \<^verbatim>\<open>range disks\<close> that fills \<^verbatim>\<open>checkSums\<close>.
\<close>

fun saveCheckSums ::
  "lib \<Rightarrow> string \<Rightarrow> erasureInfo \<Rightarrow> hashWriter list \<Rightarrow> nat list \<Rightarrow> checkSumInfo list
   \<Rightarrow> abort + checkSumInfo list" where
  "saveCheckSums l partName eInfo hashWriters [] checkSums = Inr checkSums"
| "saveCheckSums l partName eInfo hashWriters (index # rest) checkSums =
     (if length (Distribution eInfo) \<le> index then Inl IndexOutOfRange
      else
        let blockIndex = Distribution eInfo ! index - 1 in
        if blockIndex < 0 \<or> int (length checkSums) \<le> blockIndex
           \<or> int (length hashWriters) \<le> blockIndex
        then Inl IndexOutOfRange
        else
          saveCheckSums l partName eInfo hashWriters rest
            (checkSums[nat blockIndex :=
               \<lparr>Name = partName, Algorithm = ''sha512'',
                Hash = EncodeToString (Sum l (hashWriters ! nat blockIndex))\<rparr>]))"

text \<open>
  ``Erasure info update for checksum for each disks'': the loop over \<^verbatim>\<open>range eInfos\<close>.
  Inside it \<^verbatim>\<open>eInfo\<close> is the descriptor of the iteration, not the one picked at the start.
  The assignment \<^verbatim>\<open>newEInfos[index] = eInfo\<close> copies the header of \<^verbatim>\<open>eInfo.Checksum\<close>, and
  the \<^verbatim>\<open>append\<close> of the next line works on the array behind that header.
\<close>

fun updateEInfos ::
  "lib \<Rightarrow> checkSumInfo list \<Rightarrow> (nat \<times> erasureInfo) list \<Rightarrow> memory \<times> erasureInfo list
   \<Rightarrow> abort + (memory \<times> erasureInfo list)" where
  "updateEInfos l checkSums [] st = Inr st"
| "updateEInfos l checkSums ((index, eInfo) # rest) (mem, newEInfos) =
     (if IsValid eInfo then
        (if length (Distribution eInfo) \<le> index then Inl IndexOutOfRange
         else
           let blockIndex = Distribution eInfo ! index - 1 in
           if length newEInfos \<le> index then Inl IndexOutOfRange
           else
             let newEInfos1 = newEInfos[index := eInfo] in
             if blockIndex < 0 \<or> int (length checkSums) \<le> blockIndex then Inl IndexOutOfRange
             else
               (case appendSlice l mem (Checksum (newEInfos1 ! index))
                       (checkSums ! nat blockIndex) of
                  (mem', checksum') \<Rightarrow>
                    updateEInfos l checkSums rest
                      (mem', newEInfos1[index := (newEInfos1 ! index)\<lparr>Checksum := checksum'\<rparr>])))
      else updateEInfos l checkSums rest (mem, newEInfos))"

text \<open>
  The code after the stream loop, up to \<^verbatim>\<open>return newEInfos, size, nil\<close>.  What
  \<^verbatim>\<open>erasureCreateFile\<close> returns is Go's triple: the descriptors (\<open>None\<close> is \<^verbatim>\<open>nil\<close>), the
  size and the error (\<open>None\<close> is \<^verbatim>\<open>nil\<close>).  The memory after the call goes with it.
\<close>

type_synonym returned = "erasureInfo list option \<times> int \<times> error option"

definition finalize ::
  "lib \<Rightarrow> memory \<Rightarrow> string \<Rightarrow> nat \<Rightarrow> erasureInfo list \<Rightarrow> erasureInfo \<Rightarrow> hashWriter list \<Rightarrow> int
   \<Rightarrow> abort + (memory \<times> returned)" where
  "finalize l mem partName diskCount eInfos eInfo hashWriters sz =
     (case saveCheckSums l partName eInfo hashWriters [0..<diskCount]
             (replicate diskCount zeroCheckSumInfo) of
        Inl p \<Rightarrow> Inl p
      | Inr checkSums \<Rightarrow>
          (case updateEInfos l checkSums (enumerate 0 eInfos)
                  (mem, replicate diskCount zeroErasureInfo) of
             Inl p \<Rightarrow> Inl p
           | Inr (mem', newEInfos) \<Rightarrow> Inr (mem', Some newEInfos, sz, None)))"

text \<open>
  The stream loop: ``read until \<^verbatim>\<open>io.EOF\<close>, erasure codes data and writes to all disks''.
  Each \<^verbatim>\<open>return\<close> of the source and the \<^verbatim>\<open>break\<close> (which goes on with the code after the
  loop) is a branch here.  The result holds the endpoints and the memory after the call
  as well.
\<close>

function streamLoop ::
  "lib \<Rightarrow> memory \<Rightarrow> string \<Rightarrow> string \<Rightarrow> string \<Rightarrow> erasureInfo list \<Rightarrow> erasureInfo \<Rightarrow> int
   \<Rightarrow> disk option list \<Rightarrow> reader \<Rightarrow> hashWriter list \<Rightarrow> int
   \<Rightarrow> abort + (disk option list \<times> memory \<times> returned)" where
  "streamLoop l mem volume path partName eInfos eInfo writeQuorum disks data hashWriters sz =
     (case ReadFull data (nat (BlockSize eInfo)) of
        (n, buf, err, data') \<Rightarrow>
          if err = Some EOF then
            (if sz = 0 then
               (case appendFile disks volume path (replicate (length disks) [])
                       (Distribution eInfo) hashWriters writeQuorum of
                  Inl p \<Rightarrow> Inl p
                | Inr (disks', hashWriters', aErr) \<Rightarrow>
                    (case aErr of
                       Some e \<Rightarrow> Inr (disks', mem, None, 0, Some e)
                     | None \<Rightarrow>
                         map_sum id (Pair disks')
                           (finalize l mem partName (length disks') eInfos eInfo hashWriters' sz)))
             else
               map_sum id (Pair disks)
                 (finalize l mem partName (length disks) eInfos eInfo hashWriters sz))
          else if err \<noteq> None \<and> err \<noteq> Some ErrUnexpectedEOF then Inr (disks, mem, None, 0, err)
          else
            (case encodeData l buf (DataBlocks eInfo) (ParityBlocks eInfo) of
               Inl enErr \<Rightarrow> Inr (disks, mem, None, 0, Some enErr)
             | Inr blocks \<Rightarrow>
                 (case appendFile disks volume path blocks (Distribution eInfo) hashWriters
                         writeQuorum of
                    Inl p \<Rightarrow> Inl p
                  | Inr (disks', hashWriters', aErr) \<Rightarrow>
                      (case aErr of
                         Some e \<Rightarrow> Inr (disks', mem, None, 0, Some e)
                       | None \<Rightarrow>
                           streamLoop l mem volume path partName eInfos eInfo writeQuorum
                             disks' data' hashWriters' (sz + int n)))))"
  by pat_completeness auto

termination streamLoop
proof (relation "measure (\<lambda>(l, mem, volume, path, partName, eInfos, eInfo, writeQuorum,
                            disks, data, hashWriters, sz). length (pending data))")
qed (auto simp: ReadFull_def encodeData_def rsSplit_def
       split: if_splits sum.splits prod.splits)

declare streamLoop.simps [simp del]

text \<open>
  \<^verbatim>\<open>erasureCreateFile\<close> writes an entire stream by erasure coding to all the disks.  The
  read buffer is made with the descriptor's block size, which must not be negative.
  The source's \<^verbatim>\<open>size\<close> is \<open>sz\<close> here and a single \<^verbatim>\<open>disk\<close> is \<open>dsk\<close>, the two names
  being taken; \<open>mem\<close> is the memory that holds the arrays of the descriptors' checksums
  when the call starts.
\<close>

definition erasureCreateFile ::
  "lib \<Rightarrow> memory \<Rightarrow> disk option list \<Rightarrow> string \<Rightarrow> string \<Rightarrow> string \<Rightarrow> reader
   \<Rightarrow> erasureInfo list \<Rightarrow> int
   \<Rightarrow> abort + (disk option list \<times> memory \<times> returned)" where
  "erasureCreateFile l mem disks volume path partName data eInfos writeQuorum =
     (case pickValidErasureInfo eInfos of
        Inl p \<Rightarrow> Inl p
      | Inr eInfo \<Rightarrow>
          if BlockSize eInfo < 0 then Inl MakeSliceLenOutOfRange
          else
            streamLoop l mem volume path partName eInfos eInfo writeQuorum disks data
              (newHashWriters (length disks)) 0)"

subsection \<open>Vocabulary of the properties\<close>

text \<open>
  The next append of an endpoint succeeds; the endpoint after it served an append; the
  shard that the routine of endpoint \<open>index\<close> picks from the distribution.
\<close>

definition succeeds :: "disk \<Rightarrow> bool" where
  "succeeds d = (case faults d of [] \<Rightarrow> True | f # fs \<Rightarrow> \<not> f)"

definition served :: "string \<Rightarrow> string \<Rightarrow> byte list \<Rightarrow> disk \<Rightarrow> disk" where
  "served volume path buf d = snd (AppendFile d volume path buf)"

definition shardOf :: "byte list list \<Rightarrow> int list \<Rightarrow> nat \<Rightarrow> byte list" where
  "shardOf enBlocks distribution index = enBlocks ! nat (distribution ! index - 1)"

text \<open>
  In one stripe, endpoint \<open>i\<close> \<open>writes\<close> when it is present and its append succeeds, and
  \<open>fails\<close> when it is present and its append returns an error; \<open>failed\<close> counts the
  endpoints that fail.  An absent endpoint does neither.
\<close>

definition writes :: "disk option list \<Rightarrow> nat \<Rightarrow> bool" where
  "writes disks i = (case disks ! i of None \<Rightarrow> False | Some d \<Rightarrow> succeeds d)"

definition fails :: "disk option list \<Rightarrow> nat \<Rightarrow> bool" where
  "fails disks i = (case disks ! i of None \<Rightarrow> False | Some d \<Rightarrow> \<not> succeeds d)"

definition failed :: "disk option list \<Rightarrow> nat" where
  "failed disks = length (filter (fails disks) [0..<length disks])"

text \<open>The byte sequences an endpoint was asked to append, in order.\<close>

definition sent :: "disk \<Rightarrow> byte list list" where
  "sent d = map (\<lambda>(volume, path, buf, ok). buf) (calls d)"

text \<open>
  What the endpoints were sent between two states of the write: endpoint \<open>i\<close>, if present,
  received the byte sequences \<open>news i\<close>, in this order; an absent endpoint stays absent.
\<close>

definition sentBetween ::
  "disk option list \<Rightarrow> disk option list \<Rightarrow> (nat \<Rightarrow> byte list list) \<Rightarrow> bool" where
  "sentBetween disks disks' news =
     (length disks' = length disks
      \<and> (\<forall>i<length disks.
            (disks ! i = None \<longrightarrow> disks' ! i = None)
            \<and> (\<forall>d. disks ! i = Some d \<longrightarrow>
                  (\<exists>d'. disks' ! i = Some d' \<and> sent d' = sent d @ news i))))"

text \<open>
  The inputs the specification admits: a valid descriptor exists, there is one
  descriptor per endpoint, the distribution of the chosen descriptor has one entry per
  endpoint, and the valid descriptors agree with it.
\<close>

definition wellFormed :: "disk option list \<Rightarrow> erasureInfo list \<Rightarrow> erasureInfo \<Rightarrow> bool" where
  "wellFormed disks eInfos eInfo =
     (pickValidErasureInfo eInfos = Inr eInfo
      \<and> length eInfos = length disks
      \<and> length (Distribution eInfo) = length disks
      \<and> list_all (\<lambda>e. IsValid e \<longrightarrow> Distribution e = Distribution eInfo) eInfos)"

text \<open>
  A system without faults: every endpoint is present and none of its coming appends
  fails.
\<close>

definition healthy :: "disk option list \<Rightarrow> bool" where
  "healthy disks =
     list_all (\<lambda>d. case d of None \<Rightarrow> False | Some d \<Rightarrow> True \<notin> set (faults d)) disks"

text \<open>
  The blocks that successive full reads of \<open>n\<close> bytes cut a stream into, and the shards
  that \<^verbatim>\<open>encodeData\<close> makes of one block with the geometry of a descriptor.
\<close>

function chunks :: "nat \<Rightarrow> 'a list \<Rightarrow> 'a list list" where
  "chunks n xs = (if n = 0 \<or> xs = [] then [] else take n xs # chunks n (drop n xs))"
  by pat_completeness auto

termination chunks
  by (relation "measure (\<lambda>(n, xs). length xs)") auto

declare chunks.simps [simp del]

definition shardsOf :: "lib \<Rightarrow> erasureInfo \<Rightarrow> byte list \<Rightarrow> byte list list" where
  "shardsOf l eInfo buf =
     (case encodeData l buf (DataBlocks eInfo) (ParityBlocks eInfo) of
        Inl err \<Rightarrow> []
      | Inr blocks \<Rightarrow> blocks)"

text \<open>
  Concrete inputs for evaluating the model: an endpoint without faults that has received
  no call, a stand-in for the libraries (the digest of a byte sequence is the sequence
  itself, a parity byte is the exclusive or of its column, a grown slice doubles its
  capacity), a descriptor of two
  data shards and one parity shard with blocks of four bytes, and a descriptor of the
  geometry \<open>(4, 2, 1024)\<close>.
\<close>

definition disk0 :: disk where
  "disk0 = \<lparr>faults = [], calls = []\<rparr>"

definition lib0 :: lib where
  "lib0 =
     \<lparr>sha512 = (\<lambda>bs. bs), parity = (\<lambda>d p j col. foldr (XOR) col 0),
      growcap = (\<lambda>c. if c = 0 then 1 else 2 * c)\<rparr>"

definition eInfo3 :: erasureInfo where
  "eInfo3 =
     \<lparr>AlgorithmTag = ''reed-solomon'', DataBlocks = 2, ParityBlocks = 1, BlockSize = 4,
      Distribution = [2, 3, 1], Checksum = nilSlice\<rparr>"

definition eInfo6 :: erasureInfo where
  "eInfo6 =
     \<lparr>AlgorithmTag = ''reed-solomon'', DataBlocks = 4, ParityBlocks = 2, BlockSize = 1024,
      Distribution = [4, 1, 6, 3, 2, 5], Checksum = nilSlice\<rparr>"

text \<open>
  A descriptor of an object one part of which is already written: its checksum list
  holds the entry of that part, in an array with room for four entries, as
  \<^verbatim>\<open>encoding/json\<close> leaves a list of one entry that it has decoded; and a memory that holds
  this array and nothing else.
\<close>

definition part1 :: checkSumInfo where
  "part1 = \<lparr>Name = ''part.1'', Algorithm = ''sha512'', Hash = ''aa''\<rparr>"

definition eInfo3_part1 :: erasureInfo where
  "eInfo3_part1 = eInfo3\<lparr>Checksum := \<lparr>Array = 0, Offset = 0, Len = 1, Cap = 4\<rparr>\<rparr>"

definition mem_part1 :: memory where
  "mem_part1 = [[part1, zeroCheckSumInfo, zeroCheckSumInfo, zeroCheckSumInfo]]"

section \<open>Lemmas\<close>

subsection \<open>Reads consume the stream\<close>

lemma encodeData_nonempty: "encodeData l buf d p = Inr blocks \<Longrightarrow> buf \<noteq> []"
  by (auto simp: encodeData_def rsSplit_def split: sum.splits prod.splits if_splits)

lemma ReadFull_pending:
  "ReadFull data len = (n, buf, err, data') \<Longrightarrow>
   n = length buf \<and> pending data = buf @ pending data'"
  by (auto simp: ReadFull_def split: if_splits)

subsection \<open>The fan-out of one stripe\<close>

lemma AppendFile_fst: "fst (AppendFile d volume path buf) = (if succeeds d then None else Some AppendFailed)"
  by (simp add: AppendFile_def succeeds_def split: list.splits)

lemma routine_Inr:
  assumes "routine volume path enBlocks distribution index d hashWriters = Inr (d', hashWriters', wErr)"
  shows "index < length distribution" and "1 \<le> distribution ! index"
    and "distribution ! index \<le> int (length enBlocks)"
    and "d' = served volume path (shardOf enBlocks distribution index) d"
    and "wErr = (if succeeds d then None else Some AppendFailed)"
    and "succeeds d \<Longrightarrow> distribution ! index \<le> int (length hashWriters)"
    and "hashWriters' =
          (if succeeds d
           then hashWriters[nat (distribution ! index - 1) :=
                  hashWriters ! nat (distribution ! index - 1) @ shardOf enBlocks distribution index]
           else hashWriters)"
  using assms AppendFile_fst [of d volume path "shardOf enBlocks distribution index"]
  by (auto simp: routine_def Let_def served_def shardOf_def Write_def
      split: if_splits prod.splits option.splits)

lemma fanOut_length:
  "fanOut volume path enBlocks distribution is (disks, hashWriters, wErrs) = Inr (disks', hashWriters', wErrs')
   \<Longrightarrow> length disks' = length disks \<and> length hashWriters' = length hashWriters
       \<and> length wErrs' = length wErrs"
proof (induction "is" arbitrary: disks hashWriters wErrs)
  case Nil
  then show ?case by simp
next
  case (Cons index rest)
  show ?case
  proof (cases "disks ! index")
    case None
    with Cons show ?thesis by simp
  next
    case (Some d)
    with Cons.prems obtain d1 hw1 wErr where
      r: "routine volume path enBlocks distribution index d hashWriters = Inr (d1, hw1, wErr)"
      and rec: "fanOut volume path enBlocks distribution rest
          (disks[index := Some d1], hw1, wErrs[index := wErr]) = Inr (disks', hashWriters', wErrs')"
      by (auto split: sum.splits)
    from Cons.IH [OF rec] routine_Inr(7) [OF r] show ?thesis
      by (simp split: if_splits)
  qed
qed

lemma fanOut_disks:
  "fanOut volume path enBlocks distribution is (disks, hashWriters, wErrs) = Inr (disks', hashWriters', wErrs')
   \<Longrightarrow> distinct is \<Longrightarrow> \<forall>i\<in>set is. i < length disks \<Longrightarrow> i < length disks \<Longrightarrow>
   disks' ! i =
     (if i \<in> set is
      then map_option (served volume path (shardOf enBlocks distribution i)) (disks ! i)
      else disks ! i)"
proof (induction "is" arbitrary: disks hashWriters wErrs)
  case Nil
  then show ?case by simp
next
  case (Cons index rest)
  show ?case
  proof (cases "disks ! index")
    case None
    with Cons.prems have rec: "fanOut volume path enBlocks distribution rest
          (disks, hashWriters, wErrs) = Inr (disks', hashWriters', wErrs')"
      by simp
    from Cons.IH [OF rec] Cons.prems None show ?thesis
      by auto
  next
    case (Some d)
    with Cons.prems obtain d1 hw1 wErr where
      r: "routine volume path enBlocks distribution index d hashWriters = Inr (d1, hw1, wErr)"
      and rec: "fanOut volume path enBlocks distribution rest
          (disks[index := Some d1], hw1, wErrs[index := wErr]) = Inr (disks', hashWriters', wErrs')"
      by (auto split: sum.splits)
    from Cons.IH [OF rec] Cons.prems routine_Inr(4) [OF r] Some show ?thesis
      by (auto simp: nth_list_update)
  qed
qed

lemma fanOut_wErrs:
  "fanOut volume path enBlocks distribution is (disks, hashWriters, wErrs) = Inr (disks', hashWriters', wErrs')
   \<Longrightarrow> distinct is \<Longrightarrow> \<forall>i\<in>set is. i < length disks \<Longrightarrow> length wErrs = length disks \<Longrightarrow>
   i < length disks \<Longrightarrow>
   wErrs' ! i =
     (if i \<in> set is \<and> disks ! i \<noteq> None
      then (if fails disks i then Some AppendFailed else None)
      else wErrs ! i)"
proof (induction "is" arbitrary: disks hashWriters wErrs)
  case Nil
  then show ?case by simp
next
  case (Cons index rest)
  show ?case
  proof (cases "disks ! index")
    case None
    with Cons.prems have rec: "fanOut volume path enBlocks distribution rest
          (disks, hashWriters, wErrs) = Inr (disks', hashWriters', wErrs')"
      by simp
    from Cons.IH [OF rec] Cons.prems None show ?thesis
      by auto
  next
    case (Some d)
    with Cons.prems obtain d1 hw1 wErr where
      r: "routine volume path enBlocks distribution index d hashWriters = Inr (d1, hw1, wErr)"
      and rec: "fanOut volume path enBlocks distribution rest
          (disks[index := Some d1], hw1, wErrs[index := wErr]) = Inr (disks', hashWriters', wErrs')"
      by (auto split: sum.splits)
    from Cons.IH [OF rec] Cons.prems routine_Inr(5) [OF r] Some show ?thesis
      by (auto simp: nth_list_update fails_def)
  qed
qed

lemma fanOut_range:
  "fanOut volume path enBlocks distribution is (disks, hashWriters, wErrs) = Inr (disks', hashWriters', wErrs')
   \<Longrightarrow> distinct is \<Longrightarrow> \<forall>i\<in>set is. i < length disks \<Longrightarrow> i \<in> set is \<Longrightarrow> disks ! i \<noteq> None \<Longrightarrow>
   i < length distribution \<and> 1 \<le> distribution ! i \<and> distribution ! i \<le> int (length enBlocks)
   \<and> (writes disks i \<longrightarrow> distribution ! i \<le> int (length hashWriters))"
proof (induction "is" arbitrary: disks hashWriters wErrs)
  case Nil
  then show ?case by simp
next
  case (Cons index rest)
  show ?case
  proof (cases "disks ! index")
    case None
    with Cons.prems have rec: "fanOut volume path enBlocks distribution rest
          (disks, hashWriters, wErrs) = Inr (disks', hashWriters', wErrs')"
      by simp
    from Cons.IH [OF rec] Cons.prems None show ?thesis
      by auto
  next
    case (Some d)
    with Cons.prems obtain d1 hw1 wErr where
      r: "routine volume path enBlocks distribution index d hashWriters = Inr (d1, hw1, wErr)"
      and rec: "fanOut volume path enBlocks distribution rest
          (disks[index := Some d1], hw1, wErrs[index := wErr]) = Inr (disks', hashWriters', wErrs')"
      by (auto split: sum.splits)
    have len: "length hw1 = length hashWriters"
      using routine_Inr(7) [OF r] by (simp split: if_splits)
    show ?thesis
    proof (cases "i = index")
      case True
      with routine_Inr(1,2,3,6) [OF r] Some show ?thesis
        by (simp add: writes_def)
    next
      case False
      with Cons.prems have "i \<in> set rest" "(disks[index := Some d1]) ! i \<noteq> None"
        "writes (disks[index := Some d1]) i = writes disks i"
        by (auto simp: writes_def)
      with Cons.IH [OF rec, of ] Cons.prems len show ?thesis
        by auto
    qed
  qed
qed

lemma fanOut_hashes:
  "fanOut volume path enBlocks distribution is (disks, hashWriters, wErrs) = Inr (disks', hashWriters', wErrs')
   \<Longrightarrow> distinct is \<Longrightarrow> \<forall>i\<in>set is. i < length disks \<Longrightarrow> inj_on (nth distribution) (set is)
   \<Longrightarrow> k < length hashWriters \<Longrightarrow>
   hashWriters' ! k =
     (if \<exists>i\<in>set is. writes disks i \<and> nat (distribution ! i - 1) = k
      then hashWriters ! k @ enBlocks ! k else hashWriters ! k)"
proof (induction "is" arbitrary: disks hashWriters wErrs)
  case Nil
  then show ?case by simp
next
  case (Cons index rest)
  from Cons.prems have inj: "inj_on (nth distribution) (set rest)"
    by (simp add: inj_on_def)
  show ?case
  proof (cases "disks ! index")
    case None
    with Cons.prems have rec: "fanOut volume path enBlocks distribution rest
          (disks, hashWriters, wErrs) = Inr (disks', hashWriters', wErrs')"
      by simp
    from Cons.IH [OF rec _ _ inj] Cons.prems None show ?thesis
      by (auto simp: writes_def)
  next
    case (Some d)
    let ?k0 = "nat (distribution ! index - 1)"
    let ?disks1 = "disks[index := Some (served volume path (shardOf enBlocks distribution index) d)]"
    from Some Cons.prems obtain d1 hw1 wErr where
      r: "routine volume path enBlocks distribution index d hashWriters = Inr (d1, hw1, wErr)"
      and rec0: "fanOut volume path enBlocks distribution rest
          (disks[index := Some d1], hw1, wErrs[index := wErr]) = Inr (disks', hashWriters', wErrs')"
      by (auto split: sum.splits)
    note rr = routine_Inr [OF r]
    from rec0 rr(4) have rec: "fanOut volume path enBlocks distribution rest
          (?disks1, hw1, wErrs[index := wErr]) = Inr (disks', hashWriters', wErrs')"
      by simp
    have len: "length hw1 = length hashWriters"
      using rr(7) by (simp split: if_splits)
    have same: "writes ?disks1 i = writes disks i" if "i \<in> set rest" for i
    proof -
      from that Cons.prems(2) have "i \<noteq> index" by auto
      then show ?thesis by (simp add: writes_def)
    qed
    have other: "nat (distribution ! i - 1) \<noteq> ?k0" if "i \<in> set rest" "writes disks i" for i
    proof -
      from that Cons.prems(2) have ne: "i \<noteq> index" by auto
      from that same have "?disks1 ! i \<noteq> None"
        using ne by (auto simp: writes_def split: option.splits)
      from fanOut_range [OF rec _ _ that(1) this] Cons.prems
      have "1 \<le> distribution ! i" by simp
      moreover from Cons.prems(4) that(1) ne have "distribution ! i \<noteq> distribution ! index"
        by (auto simp: inj_on_def)
      ultimately show ?thesis using rr(2) by linarith
    qed
    from Cons.IH [OF rec _ _ inj] Cons.prems len
    have ih: "hashWriters' ! k =
        (if \<exists>i\<in>set rest. writes disks i \<and> nat (distribution ! i - 1) = k
         then hw1 ! k @ enBlocks ! k else hw1 ! k)"
      using same by (auto cong: if_cong)
    show ?thesis
    proof (cases "succeeds d")
      case False
      with rr(7) have "hw1 = hashWriters" by simp
      moreover from False Some have "\<not> writes disks index" by (simp add: writes_def)
      ultimately show ?thesis using ih by auto
    next
      case True
      with rr(7) have hw1: "hw1 = hashWriters[?k0 := hashWriters ! ?k0 @ shardOf enBlocks distribution index]"
        by simp
      from True Some have w: "writes disks index" by (simp add: writes_def)
      show ?thesis
      proof (cases "k = ?k0")
        case True
        with other have "\<not> (\<exists>i\<in>set rest. writes disks i \<and> nat (distribution ! i - 1) = k)"
          by auto
        with ih have "hashWriters' ! k = hw1 ! k" by simp
        with hw1 True Cons.prems(5) w show ?thesis
          by (auto simp: shardOf_def)
      next
        case False
        with hw1 have "hw1 ! k = hashWriters ! k" by simp
        with ih False show ?thesis by auto
      qed
    qed
  qed
qed

lemma routine_total:
  "index < length distribution \<Longrightarrow> 1 \<le> distribution ! index \<Longrightarrow>
   distribution ! index \<le> int (length enBlocks) \<Longrightarrow> distribution ! index \<le> int (length hashWriters) \<Longrightarrow>
   \<exists>r. routine volume path enBlocks distribution index d hashWriters = Inr r"
  by (auto simp: routine_def Let_def split: prod.splits option.splits)

lemma fanOut_total:
  "\<forall>i\<in>set is. disks ! i \<noteq> None \<longrightarrow>
      i < length distribution \<and> 1 \<le> distribution ! i \<and> distribution ! i \<le> int (length enBlocks)
      \<and> distribution ! i \<le> int (length hashWriters) \<Longrightarrow>
   distinct is \<Longrightarrow> \<forall>i\<in>set is. i < length disks \<Longrightarrow>
   \<exists>r. fanOut volume path enBlocks distribution is (disks, hashWriters, wErrs) = Inr r"
proof (induction "is" arbitrary: disks hashWriters wErrs)
  case Nil
  then show ?case by simp
next
  case (Cons index rest)
  show ?case
  proof (cases "disks ! index")
    case None
    with Cons.IH [of disks hashWriters wErrs] Cons.prems show ?thesis
      by auto
  next
    case (Some d)
    with Cons.prems routine_total [where index = index and distribution = distribution and enBlocks = enBlocks and hashWriters = hashWriters and volume = volume and path = path and d = d]
    obtain d1 hw1 wErr where
      r: "routine volume path enBlocks distribution index d hashWriters = Inr (d1, hw1, wErr)"
      by (metis list.set_intros(1) option.distinct(1) prod_cases3)
    have len: "length hw1 = length hashWriters"
      using routine_Inr(7) [OF r] by (simp split: if_splits)
    have "\<exists>r. fanOut volume path enBlocks distribution rest
          (disks[index := Some d1], hw1, wErrs[index := wErr]) = Inr r"
      using Cons.prems len by (intro Cons.IH) (auto simp: nth_list_update)
    with Some r show ?thesis by simp
  qed
qed

subsection \<open>The geometry selector\<close>

lemma pick_none: "\<forall>e\<in>set eInfos. \<not> IsValid e \<Longrightarrow> pickValidErasureInfo eInfos = Inl GeometryUnavailable"
  by (simp add: pickValidErasureInfo_def find_None_iff split: option.splits)

subsection \<open>The verdict of one stripe\<close>

lemma appendFile_fanOut:
  "appendFile disks volume path enBlocks distribution hashWriters writeQuorum = Inr (disks', hashWriters', err)
   \<Longrightarrow> \<exists>wErrs. fanOut volume path enBlocks distribution [0..<length disks]
          (disks, hashWriters, replicate (length disks) None) = Inr (disks', hashWriters', wErrs)
        \<and> err = (if isQuorum wErrs writeQuorum then None else Some (WriteQuorumLost volume path))"
  by (auto simp: appendFile_def toObjectErr_def split: sum.splits if_splits)

lemma fanOut_errCount:
  assumes "fanOut volume path enBlocks distribution [0..<length disks]
          (disks, hashWriters, replicate (length disks) None) = Inr (disks', hashWriters', wErrs)"
  shows "length wErrs = length disks" and "errCount wErrs = failed disks"
proof -
  from fanOut_length [OF assms] show len: "length wErrs = length disks"
    by simp
  have "wErrs ! i = (if fails disks i then Some AppendFailed else None)" if "i < length disks" for i
    using fanOut_wErrs [OF assms, of i] that by (auto simp: fails_def)
  with len have "wErrs = map (\<lambda>i. if fails disks i then Some AppendFailed else None) [0..<length disks]"
    by (intro nth_equalityI) simp_all
  then show "errCount wErrs = failed disks"
    by (simp add: errCount_def failed_def filter_map o_def)
qed

lemma appendFile_Inr:
  assumes "appendFile disks volume path enBlocks distribution hashWriters writeQuorum = Inr (disks', hashWriters', err)"
  shows "length disks' = length disks" and "length hashWriters' = length hashWriters"
    and "i < length disks \<Longrightarrow>
         disks' ! i = map_option (served volume path (shardOf enBlocks distribution i)) (disks ! i)"
    and "err = (if writeQuorum \<le> int (length disks) - int (failed disks) then None
                else Some (WriteQuorumLost volume path))"
    and "i < length disks \<Longrightarrow> disks ! i \<noteq> None \<Longrightarrow>
         i < length distribution \<and> 1 \<le> distribution ! i \<and> distribution ! i \<le> int (length enBlocks)
         \<and> (writes disks i \<longrightarrow> distribution ! i \<le> int (length hashWriters))"
    and "inj_on (nth distribution) {0..<length disks} \<Longrightarrow> k < length hashWriters \<Longrightarrow>
         hashWriters' ! k =
           (if \<exists>i<length disks. writes disks i \<and> nat (distribution ! i - 1) = k
            then hashWriters ! k @ enBlocks ! k else hashWriters ! k)"
proof -
  from appendFile_fanOut [OF assms] obtain wErrs where
    f: "fanOut volume path enBlocks distribution [0..<length disks]
          (disks, hashWriters, replicate (length disks) None) = Inr (disks', hashWriters', wErrs)"
    and e: "err = (if isQuorum wErrs writeQuorum then None else Some (WriteQuorumLost volume path))"
    by blast
  from fanOut_length [OF f] show "length disks' = length disks" "length hashWriters' = length hashWriters"
    by simp_all
  from fanOut_disks [OF f, of i] show "i < length disks \<Longrightarrow>
         disks' ! i = map_option (served volume path (shardOf enBlocks distribution i)) (disks ! i)"
    by simp
  from e fanOut_errCount [OF f] show "err = (if writeQuorum \<le> int (length disks) - int (failed disks) then None
                else Some (WriteQuorumLost volume path))"
    by (simp add: isQuorum_def)
  from fanOut_range [OF f, of i] show "i < length disks \<Longrightarrow> disks ! i \<noteq> None \<Longrightarrow>
         i < length distribution \<and> 1 \<le> distribution ! i \<and> distribution ! i \<le> int (length enBlocks)
         \<and> (writes disks i \<longrightarrow> distribution ! i \<le> int (length hashWriters))"
    by simp
  from fanOut_hashes [OF f, of k] show "inj_on (nth distribution) {0..<length disks} \<Longrightarrow> k < length hashWriters \<Longrightarrow>
         hashWriters' ! k =
           (if \<exists>i<length disks. writes disks i \<and> nat (distribution ! i - 1) = k
            then hashWriters ! k @ enBlocks ! k else hashWriters ! k)"
    by (simp add: Bex_def)
qed

lemma appendFile_total:
  assumes "\<forall>i<length disks. disks ! i \<noteq> None \<longrightarrow>
      i < length distribution \<and> 1 \<le> distribution ! i \<and> distribution ! i \<le> int (length enBlocks)
      \<and> distribution ! i \<le> int (length hashWriters)"
  shows "\<exists>r. appendFile disks volume path enBlocks distribution hashWriters writeQuorum = Inr r"
proof -
  from assms have "\<exists>r. fanOut volume path enBlocks distribution [0..<length disks]
          (disks, hashWriters, replicate (length disks) None) = Inr r"
    by (intro fanOut_total) auto
  then show ?thesis
    by (auto simp: appendFile_def)
qed

subsection \<open>Induction over the stream loop\<close>

lemma map_sum_Pair_Inr [simp]:
  "map_sum id (Pair d) x = Inr (d', y) \<longleftrightarrow> d' = d \<and> x = Inr y"
  by (cases x) auto

lemma map_sum_Pair_Inl [simp]:
  "map_sum id (Pair d) x = Inl p \<longleftrightarrow> x = Inl p"
  by (cases x) auto

lemma finalize_no_error:
  "finalize l mem partName diskCount eInfos eInfo hashWriters sz = Inr (mem', r, s, e) \<Longrightarrow> e = None"
  by (auto simp: finalize_def split: sum.splits)

lemma streamLoop_induct [case_names step]:
  assumes "\<And>disks data hashWriters sz.
     (\<And>n buf err data' blocks disks' hashWriters'.
        ReadFull data (nat (BlockSize eInfo)) = (n, buf, err, data') \<Longrightarrow>
        err = None \<or> err = Some ErrUnexpectedEOF \<Longrightarrow>
        encodeData l buf (DataBlocks eInfo) (ParityBlocks eInfo) = Inr blocks \<Longrightarrow>
        appendFile disks volume path blocks (Distribution eInfo) hashWriters writeQuorum
          = Inr (disks', hashWriters', None) \<Longrightarrow>
        P disks' data' hashWriters' (sz + int n)) \<Longrightarrow>
     P disks data hashWriters sz"
  shows "P disks data hashWriters sz"
proof (induction "length (pending data)" arbitrary: disks data hashWriters sz rule: less_induct)
  case less
  show ?case
    apply (rule assms)
    apply (rule less.hyps)
    apply (drule ReadFull_pending)
    apply (drule encodeData_nonempty)
    apply simp
    done
qed

lemma streamLoop_error:
  "streamLoop l mem volume path partName eInfos eInfo writeQuorum disks data hashWriters sz
     = Inr (disks', mem', r, s, Some e) \<Longrightarrow> r = None \<and> s = 0"
proof (induction disks data hashWriters sz
    rule: streamLoop_induct [where l = l and eInfo = eInfo and volume = volume and path = path
      and writeQuorum = writeQuorum])
  case (step disks data hashWriters sz)
  from step.prems show ?case
    apply (subst (asm) streamLoop.simps)
    apply (auto split: prod.splits if_splits sum.splits option.splits
        dest: finalize_no_error step.IH)
    done
qed

subsection \<open>The concrete descriptors\<close>

lemma IsValid_eInfo3: "IsValid eInfo3"
  by code_simp

lemma IsValid_eInfo6: "IsValid eInfo6"
  by code_simp

lemma not_IsValid_zero: "\<not> IsValid zeroErasureInfo"
  by (simp add: IsValid_def zeroErasureInfo_def)

subsection \<open>Geometry of a valid descriptor\<close>

lemma IsValid_Distribution:
  assumes "IsValid e"
  shows "distinct (Distribution e)"
    and "length (Distribution e) = nat (DataBlocks e + ParityBlocks e)"
    and "i < length (Distribution e) \<Longrightarrow>
         1 \<le> Distribution e ! i \<and> Distribution e ! i \<le> int (length (Distribution e))"
    and "0 < BlockSize e" and "0 < DataBlocks e" and "0 < ParityBlocks e"
proof -
  from assms have s: "sort (Distribution e) = [1..DataBlocks e + ParityBlocks e]"
    and pos: "0 < BlockSize e" "0 < DataBlocks e" "0 < ParityBlocks e"
    by (simp_all add: IsValid_def)
  from pos show "0 < BlockSize e" "0 < DataBlocks e" "0 < ParityBlocks e" .
  have "distinct (sort (Distribution e))"
    by (simp add: s)
  then show "distinct (Distribution e)"
    by simp
  have "length (sort (Distribution e)) = nat (DataBlocks e + ParityBlocks e)"
    by (simp add: s)
  then show len: "length (Distribution e) = nat (DataBlocks e + ParityBlocks e)"
    by simp
  have "set (sort (Distribution e)) = {1..DataBlocks e + ParityBlocks e}"
    by (simp add: s)
  then have "set (Distribution e) = {1..DataBlocks e + ParityBlocks e}"
    by simp
  moreover assume "i < length (Distribution e)"
  then have "Distribution e ! i \<in> set (Distribution e)"
    by simp
  ultimately show "1 \<le> Distribution e ! i \<and> Distribution e ! i \<le> int (length (Distribution e))"
    using len by auto
qed

lemma pickValidErasureInfo_Inr:
  "pickValidErasureInfo eInfos = Inr eInfo \<Longrightarrow> IsValid eInfo \<and> eInfo \<in> set eInfos"
  by (auto simp: pickValidErasureInfo_def find_Some_iff split: option.splits)

subsection \<open>The codec\<close>

lemma rsSplit_Inr:
  assumes "rsSplit (d, p) buf = Inr shards" and "0 < d"
  shows "buf \<noteq> []" and "length shards = d + p"
    and "\<forall>s\<in>set shards. length s = (length buf + d - 1) div d"
proof -
  define per where "per = (length buf + d - 1) div d"
  define padded where "padded = buf @ replicate ((d + p) * per - length buf) 0"
  from assms(1) show ne: "buf \<noteq> []"
    by (auto simp: rsSplit_def split: if_splits)
  from assms(1) ne have sh: "shards = map (\<lambda>i. take per (drop (i * per) padded)) [0..<d + p]"
    by (simp add: rsSplit_def Let_def per_def padded_def)
  then show "length shards = d + p"
    by simp
  have "length buf \<le> d * per"
  proof -
    have "length buf + d - 1 < d * per + d"
      unfolding per_def
      using assms(2) dividend_less_times_div [of d "length buf + d - 1"] by (simp add: ac_simps)
    then show ?thesis by simp
  qed
  also have "\<dots> \<le> (d + p) * per"
    by simp
  finally have total: "length padded = (d + p) * per"
    by (simp add: padded_def)
  have "length (take per (drop (i * per) padded)) = per" if "i < d + p" for i
  proof -
    from that have "Suc i \<le> d + p" by simp
    then have "Suc i * per \<le> (d + p) * per"
      by (rule mult_le_mono1)
    then have "per \<le> (d + p) * per - i * per"
      by simp
    with total show ?thesis
      by simp
  qed
  with sh show "\<forall>s\<in>set shards. length s = (length buf + d - 1) div d"
    by (auto simp: per_def)
qed

lemma perShard_pos: "0 < d \<Longrightarrow> buf \<noteq> [] \<Longrightarrow> 0 < (length buf + d - 1) div d"
  by (cases buf) (simp_all add: div_greater_zero_iff)

lemma encodeData_Inr:
  assumes "encodeData l buf d p = Inr blocks"
  shows "0 < d" and "0 < p" and "buf \<noteq> []" and "length blocks = nat (d + p)"
    and "\<forall>b\<in>set blocks. length b = (length buf + nat d - 1) div nat d"
proof -
  from assms have pos: "0 < d" "0 < p"
    by (auto simp: encodeData_def New_def split: if_splits sum.splits)
  then show "0 < d" "0 < p" .
  from assms pos obtain shards where
    sp: "rsSplit (nat d, nat p) buf = Inr shards"
    and en: "rsEncode l (nat d, nat p) shards = Inr blocks"
    by (auto simp: encodeData_def New_def split: if_splits sum.splits)
  from pos have d: "0 < nat d" by simp
  note s = rsSplit_Inr [OF sp d]
  from s(1) show "buf \<noteq> []" .
  let ?per = "(length buf + nat d - 1) div nat d"
  from s(2) d have ne: "shards \<noteq> []" by auto
  then have hd: "length (hd shards) = ?per"
    using s(3) by simp
  from en have blocks: "blocks = take (nat d) shards @
       map (\<lambda>j. map (\<lambda>c. parity l (nat d) (nat p) j (map (\<lambda>s. s ! c) (take (nat d) shards)))
                  [0..<length (hd shards)]) [0..<nat p]"
    by (auto simp: rsEncode_def split: if_splits)
  with s(2) pos show "length blocks = nat (d + p)"
    by (simp add: nat_add_distrib)
  from blocks hd s(3) show "\<forall>b\<in>set blocks. length b = ?per"
    by (auto dest: in_set_takeD)
qed

lemma encodeData_total:
  assumes "0 < d" and "0 < p" and "d + p \<le> 255" and "buf \<noteq> []"
  shows "\<exists>blocks. encodeData l buf d p = Inr blocks"
proof -
  from assms(4) obtain shards where sp: "rsSplit (nat d, nat p) buf = Inr shards"
    by (auto simp: rsSplit_def Let_def)
  from assms(1) have d: "0 < nat d" by simp
  note s = rsSplit_Inr [OF sp d]
  let ?per = "(length buf + nat d - 1) div nat d"
  from assms(4) d have per: "0 < ?per"
    by (rule perShard_pos [rotated])
  from s(2) d have ne: "shards \<noteq> []" by auto
  then have hd: "length (hd shards) = ?per"
    using s(3) by simp
  with per have "hd shards \<noteq> []" by auto
  with ne s hd have "\<exists>blocks. rsEncode l (nat d, nat p) shards = Inr blocks"
    by (auto simp: rsEncode_def list_ex_iff)
  with sp assms show ?thesis
    by (auto simp: encodeData_def New_def)
qed

lemma encodeData_block_nonempty:
  assumes "encodeData l buf d p = Inr blocks" and "b \<in> set blocks"
  shows "b \<noteq> []"
proof -
  note e = encodeData_Inr [OF assms(1)]
  from e(1,3) have "0 < (length buf + nat d - 1) div nat d"
    by (intro perShard_pos) simp_all
  with e(5) assms(2) show ?thesis by auto
qed

subsection \<open>Endpoints\<close>

lemma served_calls:
  "calls (served volume path buf d) = calls d @ [(volume, path, buf, succeeds d)]"
  by (simp add: served_def AppendFile_def succeeds_def split: list.splits)

lemma served_sent: "sent (served volume path buf d) = sent d @ [buf]"
  by (simp add: sent_def served_calls)

lemma served_faults: "faults (served volume path buf d) = tl (faults d)"
  by (simp add: served_def AppendFile_def split: list.splits)

subsection \<open>The stream loop\<close>

lemma wellFormed_geometry:
  assumes "wellFormed disks eInfos eInfo"
  shows "IsValid eInfo" and "length (Distribution eInfo) = length disks"
    and "distinct (Distribution eInfo)"
    and "i < length disks \<Longrightarrow>
         1 \<le> Distribution eInfo ! i \<and> Distribution eInfo ! i \<le> int (length disks)"
    and "i < length disks \<Longrightarrow> IsValid (eInfos ! i) \<Longrightarrow>
         Distribution (eInfos ! i) = Distribution eInfo"
    and "int (length disks) = DataBlocks eInfo + ParityBlocks eInfo"
proof -
  from assms have p: "pickValidErasureInfo eInfos = Inr eInfo"
    and len: "length eInfos = length disks" "length (Distribution eInfo) = length disks"
    and agree: "\<forall>e\<in>set eInfos. IsValid e \<longrightarrow> Distribution e = Distribution eInfo"
    by (simp_all add: wellFormed_def list_all_iff)
  from pickValidErasureInfo_Inr [OF p] show v: "IsValid eInfo" by simp
  from len show "length (Distribution eInfo) = length disks" by simp
  from IsValid_Distribution(1) [OF v] show "distinct (Distribution eInfo)" .
  from IsValid_Distribution(3) [OF v, of i] len
  show "i < length disks \<Longrightarrow>
         1 \<le> Distribution eInfo ! i \<and> Distribution eInfo ! i \<le> int (length disks)"
    by simp
  from agree len show "i < length disks \<Longrightarrow> IsValid (eInfos ! i) \<Longrightarrow>
         Distribution (eInfos ! i) = Distribution eInfo"
    by simp
  from IsValid_Distribution(2,5,6) [OF v] len
  show "int (length disks) = DataBlocks eInfo + ParityBlocks eInfo"
    by simp
qed

subsection \<open>The write returns\<close>

lemma saveCheckSums_total:
  "\<forall>i\<in>set is. i < length (Distribution eInfo) \<and> 1 \<le> Distribution eInfo ! i
       \<and> Distribution eInfo ! i \<le> int (length checkSums)
       \<and> Distribution eInfo ! i \<le> int (length hashWriters) \<Longrightarrow>
   \<exists>checkSums'. saveCheckSums l partName eInfo hashWriters is checkSums = Inr checkSums'"
proof (induction "is" arbitrary: checkSums)
  case Nil
  then show ?case by simp
next
  case (Cons index rest)
  let ?cs = "checkSums[nat (Distribution eInfo ! index - 1) :=
               \<lparr>Name = partName, Algorithm = ''sha512'',
                Hash = EncodeToString (Sum l (hashWriters ! nat (Distribution eInfo ! index - 1)))\<rparr>]"
  from Cons.prems have "\<exists>checkSums'. saveCheckSums l partName eInfo hashWriters rest ?cs = Inr checkSums'"
    by (intro Cons.IH) simp
  with Cons.prems show ?case
    by (auto simp: Let_def)
qed

lemma saveCheckSums_length:
  "saveCheckSums l partName eInfo hashWriters is checkSums = Inr checkSums' \<Longrightarrow>
   length checkSums' = length checkSums"
proof (induction "is" arbitrary: checkSums)
  case Nil
  then show ?case by simp
next
  case (Cons index rest)
  from Cons.prems show ?case
    by (auto simp: Let_def split: if_splits dest: Cons.IH)
qed

lemma updateEInfos_total:
  "\<forall>(i, e)\<in>set ps. IsValid e \<longrightarrow>
      i < length newEInfos \<and> i < length (Distribution e) \<and> 1 \<le> Distribution e ! i
      \<and> Distribution e ! i \<le> int (length checkSums) \<Longrightarrow>
   \<exists>mem' newEInfos'. updateEInfos l checkSums ps (mem, newEInfos) = Inr (mem', newEInfos')"
proof (induction ps arbitrary: mem newEInfos)
  case Nil
  then show ?case by simp
next
  case (Cons q ps)
  obtain index eInfo where q: "q = (index, eInfo)" by (cases q)
  show ?case
  proof (cases "IsValid eInfo")
    case False
    with Cons.IH [of newEInfos mem] Cons.prems q show ?thesis by auto
  next
    case True
    let ?new = "newEInfos[index := eInfo]"
    obtain mem1 checksum1 where
      a: "appendSlice l mem (Checksum (?new ! index))
            (checkSums ! nat (Distribution eInfo ! index - 1)) = (mem1, checksum1)"
      by (cases "appendSlice l mem (Checksum (?new ! index))
            (checkSums ! nat (Distribution eInfo ! index - 1))")
    let ?new' = "?new[index := (?new ! index)\<lparr>Checksum := checksum1\<rparr>]"
    from Cons.prems
    have "\<exists>mem' newEInfos'. updateEInfos l checkSums ps (mem1, ?new') = Inr (mem', newEInfos')"
      by (intro Cons.IH) auto
    with Cons.prems q True a show ?thesis
      by (auto simp: Let_def)
  qed
qed

lemma finalize_total:
  assumes wf: "wellFormed disks eInfos eInfo"
    and len: "length hashWriters = length disks"
  shows "\<exists>mem' newEInfos. finalize l mem partName (length disks) eInfos eInfo hashWriters sz
           = Inr (mem', Some newEInfos, sz, None)"
proof -
  note g = wellFormed_geometry [OF wf]
  from wf have elen: "length eInfos = length disks"
    by (simp add: wellFormed_def)
  have "\<forall>i\<in>set [0..<length disks]. i < length (Distribution eInfo) \<and> 1 \<le> Distribution eInfo ! i
       \<and> Distribution eInfo ! i \<le> int (length (replicate (length disks) zeroCheckSumInfo))
       \<and> Distribution eInfo ! i \<le> int (length hashWriters)"
    using g(2) g(4) len by simp
  from saveCheckSums_total [OF this] obtain checkSums where
    s: "saveCheckSums l partName eInfo hashWriters [0..<length disks]
          (replicate (length disks) zeroCheckSumInfo) = Inr checkSums"
    by blast
  from saveCheckSums_length [OF s] have clen: "length checkSums = length disks"
    by simp
  have "\<forall>(i, e)\<in>set (enumerate 0 eInfos). IsValid e \<longrightarrow>
      i < length (replicate (length disks) zeroErasureInfo) \<and> i < length (Distribution e)
      \<and> 1 \<le> Distribution e ! i \<and> Distribution e ! i \<le> int (length checkSums)"
  proof (clarify, goal_cases)
    case (1 i e)
    then have i: "i < length disks" and e: "e = eInfos ! i"
      using elen by (simp_all add: in_set_enumerate_eq)
    from g(5) [OF i] 1(2) e have "Distribution e = Distribution eInfo" by simp
    with g(2) g(4) [OF i] i clen show ?case by simp
  qed
  from updateEInfos_total [OF this] obtain mem' newEInfos where
    "updateEInfos l checkSums (enumerate 0 eInfos) (mem, replicate (length disks) zeroErasureInfo)
     = Inr (mem', newEInfos)"
    by blast
  with s show ?thesis
    by (simp add: finalize_def)
qed

lemma appendFile_wellFormed:
  assumes wf: "wellFormed disks0 eInfos eInfo"
    and len: "length disks = length disks0" "length hashWriters = length disks0"
      "length blocks = length disks0"
  shows "\<exists>disks' hashWriters' err.
     appendFile disks volume path blocks (Distribution eInfo) hashWriters writeQuorum
     = Inr (disks', hashWriters', err)"
proof -
  note g = wellFormed_geometry [OF wf]
  have "\<forall>i<length disks. disks ! i \<noteq> None \<longrightarrow>
      i < length (Distribution eInfo) \<and> 1 \<le> Distribution eInfo ! i
      \<and> Distribution eInfo ! i \<le> int (length blocks)
      \<and> Distribution eInfo ! i \<le> int (length hashWriters)"
    using g(2) g(4) len by simp
  from appendFile_total [OF this] show ?thesis
    by (metis prod_cases3)
qed

lemma streamLoop_total:
  assumes wf: "wellFormed disks0 eInfos eInfo"
  shows "length disks = length disks0 \<Longrightarrow> length hashWriters = length disks0 \<Longrightarrow>
     \<exists>disks' mem' r.
       streamLoop l mem volume path partName eInfos eInfo writeQuorum disks data hashWriters sz
       = Inr (disks', mem', r)"
proof (induction disks data hashWriters sz
    rule: streamLoop_induct [where l = l and eInfo = eInfo and volume = volume and path = path
      and writeQuorum = writeQuorum])
  case (step disks data hashWriters sz)
  note g = wellFormed_geometry [OF wf]
  obtain n buf err data' where rd: "ReadFull data (nat (BlockSize eInfo)) = (n, buf, err, data')"
    by (cases "ReadFull data (nat (BlockSize eInfo))") auto
  note unf = streamLoop.simps [of l mem volume path partName eInfos eInfo
        writeQuorum disks data hashWriters sz, unfolded rd, simplified]
  have fin: "\<exists>mem1 new. finalize l mem partName (length disks1) eInfos eInfo hw1 s
               = Inr (mem1, Some new, s, None)"
    if "length disks1 = length disks0" "length hw1 = length disks0" for disks1 hw1 s
    using finalize_total [OF wf, where hashWriters = hw1 and l = l and mem = mem
        and partName = partName and sz = s] that by simp
  show ?case
  proof (cases "err = Some EOF")
    case True
    show ?thesis
    proof (cases "sz = 0")
      case sz: True
      from appendFile_wellFormed [OF wf step.prems, of "replicate (length disks) []" volume path writeQuorum]
        step.prems
      obtain disks1 hw1 aErr where
        a: "appendFile disks volume path (replicate (length disks) []) (Distribution eInfo)
              hashWriters writeQuorum = Inr (disks1, hw1, aErr)"
        by auto
      from appendFile_Inr(1,2) [OF a] step.prems fin [of disks1 hw1 0]
      obtain mem1 new where
        "finalize l mem partName (length disks1) eInfos eInfo hw1 0 = Inr (mem1, Some new, 0, None)"
        by auto
      with a True sz unf show ?thesis
        by (cases aErr) auto
    next
      case False
      from fin [OF step.prems, of sz] False True unf show ?thesis
        by auto
    qed
  next
    case False
    show ?thesis
    proof (cases "err = None \<or> err = Some ErrUnexpectedEOF")
      case e: False
      with False unf show ?thesis
        by auto
    next
      case e: True
      show ?thesis
      proof (cases "encodeData l buf (DataBlocks eInfo) (ParityBlocks eInfo)")
        case (Inl enErr)
        with False e unf show ?thesis
          by auto
      next
        case (Inr blocks)
        from encodeData_Inr(4) [OF Inr] g(6) [symmetric] step.prems
        have bl: "length blocks = length disks0"
          by simp
        from appendFile_wellFormed [OF wf step.prems bl, of volume path writeQuorum]
        obtain disks1 hw1 aErr where
          a: "appendFile disks volume path blocks (Distribution eInfo)
              hashWriters writeQuorum = Inr (disks1, hw1, aErr)"
          by auto
        show ?thesis
        proof (cases aErr)
          case (Some x)
          with a Inr False e unf show ?thesis
            by auto
        next
          case None
          from appendFile_Inr(1,2) [OF a] step.prems
          have "length disks1 = length disks0" "length hw1 = length disks0"
            by simp_all
          from step.IH [OF rd e Inr a [unfolded None] this] a None Inr False e unf
          show ?thesis
            by auto
        qed
      qed
    qed
  qed
qed

subsection \<open>Blocks read and shards sent\<close>

lemma ReadFull_EOF:
  "ReadFull data len = (n, buf, Some EOF, data') \<Longrightarrow> pending data = [] \<and> 0 < len"
  by (auto simp: ReadFull_def split: if_splits)

lemma ReadFull_block:
  "ReadFull data len = (n, buf, err, data') \<Longrightarrow> buf \<noteq> [] \<Longrightarrow>
   0 < len \<and> pending data \<noteq> [] \<and> buf = take len (pending data)
   \<and> pending data' = drop len (pending data) \<and> n = length buf \<and> broken data' = broken data"
  by (auto simp: ReadFull_def split: if_splits)

lemma ReadFull_empty:
  "pending data = [] \<Longrightarrow> \<not> broken data \<Longrightarrow> 0 < len \<Longrightarrow>
   ReadFull data len = (0, [], Some EOF, data\<lparr>pending := []\<rparr>)"
  by (simp add: ReadFull_def)

lemma chunks_Nil [simp]: "chunks n [] = []"
  by (simp add: chunks.simps)

lemma chunks_Cons: "0 < n \<Longrightarrow> xs \<noteq> [] \<Longrightarrow> chunks n xs = take n xs # chunks n (drop n xs)"
  by (subst chunks.simps) simp

lemma div_add_self: "0 < n \<Longrightarrow> (k + n) div n = Suc (k div n)" for n k :: nat
  using div_add_self2 [of n k] by simp

lemma length_chunks: "0 < n \<Longrightarrow> length (chunks n xs) = (length xs + n - 1) div n"
proof (induction n xs rule: chunks.induct)
  case (1 n xs)
  show ?case
  proof (cases "xs = []")
    case True
    with 1 show ?thesis by simp
  next
    case False
    then have pos: "0 < length xs" by simp
    from 1 False have ih: "length (chunks n (drop n xs)) = (length xs - n + n - 1) div n"
      by simp
    from pos have split: "length xs + n - 1 = (length xs - 1) + n"
      by linarith
    show ?thesis
    proof (cases "n \<le> length xs")
      case True
      then have "length xs - n + n - 1 = length xs - 1"
        by simp
      with ih have "length (chunks n (drop n xs)) = (length xs - 1) div n"
        by simp
      with False 1(2) show ?thesis
        unfolding split by (simp add: chunks_Cons div_add_self)
    next
      case short: False
      then have "(length xs - 1) div n = 0"
        by simp
      with short False 1(2) show ?thesis
        unfolding split by (simp add: chunks_Cons div_add_self)
    qed
  qed
qed

lemma sentBetween_refl: "sentBetween disks disks (\<lambda>i. [])"
  by (simp add: sentBetween_def)

lemma sentBetween_trans:
  assumes "sentBetween disks disks1 n1" and "sentBetween disks1 disks2 n2"
  shows "sentBetween disks disks2 (\<lambda>i. n1 i @ n2 i)"
proof -
  from assms have len: "length disks1 = length disks" "length disks2 = length disks"
    by (simp_all add: sentBetween_def)
  have "disks2 ! i = None" if "i < length disks" "disks ! i = None" for i
  proof -
    from assms(1) that have "disks1 ! i = None"
      unfolding sentBetween_def by blast
    with assms(2) that(1) len show ?thesis
      unfolding sentBetween_def by simp
  qed
  moreover have "\<exists>d'. disks2 ! i = Some d' \<and> sent d' = sent d @ n1 i @ n2 i"
    if "i < length disks" "disks ! i = Some d" for i d
  proof -
    from assms(1) that obtain d1 where d1: "disks1 ! i = Some d1" "sent d1 = sent d @ n1 i"
      unfolding sentBetween_def by blast
    from assms(2) that(1) len d1(1) obtain d2 where "disks2 ! i = Some d2" "sent d2 = sent d1 @ n2 i"
      unfolding sentBetween_def by force
    with d1 show ?thesis by simp
  qed
  ultimately show ?thesis
    using len by (simp add: sentBetween_def)
qed

lemma appendFile_sentBetween:
  assumes "appendFile disks volume path blocks dist hashWriters writeQuorum
           = Inr (disks', hashWriters', err)"
  shows "sentBetween disks disks' (\<lambda>i. [shardOf blocks dist i])"
    and "i < length disks \<Longrightarrow> disks ! i \<noteq> None \<Longrightarrow> shardOf blocks dist i \<in> set blocks"
proof -
  note a = appendFile_Inr [OF assms]
  from a(1) a(3) show "sentBetween disks disks' (\<lambda>i. [shardOf blocks dist i])"
    by (auto simp: sentBetween_def served_sent)
  assume "i < length disks" "disks ! i \<noteq> None"
  from a(5) [OF this] have "nat (dist ! i - 1) < length blocks"
    by linarith
  then show "shardOf blocks dist i \<in> set blocks"
    by (simp add: shardOf_def)
qed

lemma finalize_result:
  "finalize l mem partName n eInfos eInfo hashWriters sz = Inr (mem', r) \<Longrightarrow>
   snd (snd r) = None \<and> fst (snd r) = sz"
  by (auto simp: finalize_def split: sum.splits prod.splits)

lemma shardsOf_Inr:
  "encodeData l buf (DataBlocks eInfo) (ParityBlocks eInfo) = Inr blocks \<Longrightarrow>
   shardsOf l eInfo buf = blocks"
  by (simp add: shardsOf_def)

lemma streamLoop_sent:
  assumes "streamLoop l mem volume path partName eInfos eInfo writeQuorum disks data hashWriters sz
           = Inr (disks', mem', r)"
    and "0 < sz \<or> pending data \<noteq> []" and "0 \<le> sz"
  shows "\<exists>news. sentBetween disks disks' news
     \<and> (\<forall>i<length disks. disks ! i \<noteq> None \<longrightarrow> [] \<notin> set (news i))
     \<and> (snd (snd r) = None \<longrightarrow>
          fst (snd r) = sz + int (length (pending data))
          \<and> (\<forall>i<length disks. disks ! i \<noteq> None \<longrightarrow>
                news i = map (\<lambda>blk. shardOf (shardsOf l eInfo blk) (Distribution eInfo) i)
                           (chunks (nat (BlockSize eInfo)) (pending data))))"
  using assms
proof (induction disks data hashWriters sz
    rule: streamLoop_induct [where l = l and eInfo = eInfo and volume = volume and path = path
      and writeQuorum = writeQuorum])
  case (step disks data hashWriters sz)
  obtain n buf err data' where rd: "ReadFull data (nat (BlockSize eInfo)) = (n, buf, err, data')"
    by (cases "ReadFull data (nat (BlockSize eInfo))") auto
  note run = step.prems(1) [unfolded streamLoop.simps [of l mem volume path partName eInfos eInfo
        writeQuorum disks data hashWriters sz] rd, simplified]
  let ?shard = "\<lambda>blk i. shardOf (shardsOf l eInfo blk) (Distribution eInfo) i"
  let ?B = "nat (BlockSize eInfo)"
  have stay: ?case if "disks' = disks"
    and "snd (snd r) = None \<longrightarrow> fst (snd r) = sz \<and> pending data = []"
  proof (intro exI [of _ "\<lambda>i. []"] conjI)
    from that(1) show "sentBetween disks disks' (\<lambda>i. [])"
      by (simp add: sentBetween_refl)
    show "\<forall>i<length disks. disks ! i \<noteq> None \<longrightarrow> [] \<notin> set []"
      by simp
    from that(2) show "snd (snd r) = None \<longrightarrow>
          fst (snd r) = sz + int (length (pending data))
          \<and> (\<forall>i<length disks. disks ! i \<noteq> None \<longrightarrow>
                [] = map (\<lambda>blk. ?shard blk i) (chunks ?B (pending data)))"
      by auto
  qed
  show ?case
  proof (cases "err = Some EOF")
    case True
    with rd have empty: "pending data = []"
      by (auto dest: ReadFull_EOF)
    with step.prems have "sz \<noteq> 0" by auto
    with run True have "disks' = disks"
      and f: "finalize l mem partName (length disks) eInfos eInfo hashWriters sz = Inr (mem', r)"
      by auto
    with finalize_result [OF f] empty
    show ?thesis
      by (intro stay) auto
  next
    case False
    show ?thesis
    proof (cases "err = None \<or> err = Some ErrUnexpectedEOF")
      case e: False
      with run False have "disks' = disks" "r = (None, 0, err)"
        by auto
      with e show ?thesis
        by (intro stay) auto
    next
      case e: True
      show ?thesis
      proof (cases "encodeData l buf (DataBlocks eInfo) (ParityBlocks eInfo)")
        case (Inl enErr)
        with run False e have "disks' = disks" "r = (None, 0, Some enErr)"
          by auto
        then show ?thesis
          by (intro stay) auto
      next
        case (Inr blocks)
        note rb = ReadFull_block [OF rd encodeData_nonempty [OF Inr]]
        from rb have ch: "chunks ?B (pending data) = buf # chunks ?B (pending data')"
          by (simp add: chunks_Cons)
        from rb encodeData_nonempty [OF Inr] have npos: "0 < n"
          by simp
        from ReadFull_pending [OF rd] have "length (pending data) = n + length (pending data')"
          by simp
        with npos step.prems(3)
        have sz': "sz + int n = sz + int (length (pending data)) - int (length (pending data'))"
          "0 < sz + int n \<or> pending data' \<noteq> []" "0 \<le> sz + int n"
          by simp_all
        from run False e Inr obtain disks1 hw1 aErr where
          a: "appendFile disks volume path blocks (Distribution eInfo) hashWriters writeQuorum
              = Inr (disks1, hw1, aErr)"
          by (auto split: sum.splits)
        note sb = appendFile_sentBetween [OF a]
        have first: "[] \<notin> set [shardOf blocks (Distribution eInfo) i]"
          if "i < length disks" "disks ! i \<noteq> None" for i
          using encodeData_block_nonempty [OF Inr sb(2) [OF that]] by simp
        from sb(1) have len1: "length disks1 = length disks"
          and pres: "\<And>i. i < length disks \<Longrightarrow> disks ! i \<noteq> None \<Longrightarrow> disks1 ! i \<noteq> None"
          unfolding sentBetween_def by auto
        show ?thesis
        proof (cases aErr)
          case (Some x)
          with run False e Inr a have "disks' = disks1" "r = (None, 0, Some x)"
            by auto
          with sb(1) first show ?thesis
            by (intro exI [of _ "\<lambda>i. [shardOf blocks (Distribution eInfo) i]"]) simp
        next
          case None
          with run False e Inr a have rec: "streamLoop l mem volume path partName eInfos eInfo
              writeQuorum disks1 data' hw1 (sz + int n) = Inr (disks', mem', r)"
            by auto
          from step.IH [OF rd e Inr a [unfolded None] rec sz'(2,3)] obtain news where
            ih: "sentBetween disks1 disks' news
              \<and> (\<forall>i<length disks1. disks1 ! i \<noteq> None \<longrightarrow> [] \<notin> set (news i))
              \<and> (snd (snd r) = None \<longrightarrow>
                   fst (snd r) = sz + int n + int (length (pending data'))
                   \<and> (\<forall>i<length disks1. disks1 ! i \<noteq> None \<longrightarrow>
                         news i = map (\<lambda>blk. ?shard blk i) (chunks ?B (pending data'))))"
            by (rule exE)
          from ih have n1: "sentBetween disks1 disks' news"
            by (rule conjunct1)
          from ih have n2: "\<And>i. i < length disks1 \<Longrightarrow> disks1 ! i \<noteq> None \<Longrightarrow> [] \<notin> set (news i)"
            by simp
          from ih have n3: "fst (snd r) = sz + int n + int (length (pending data'))"
            and n4: "\<And>i. i < length disks1 \<Longrightarrow> disks1 ! i \<noteq> None \<Longrightarrow>
                    news i = map (\<lambda>blk. ?shard blk i) (chunks ?B (pending data'))"
            if "snd (snd r) = None"
            using that by simp_all
          let ?news = "\<lambda>i. [shardOf blocks (Distribution eInfo) i] @ news i"
          have c1: "sentBetween disks disks' ?news"
            using sb(1) n1 by (rule sentBetween_trans)
          have c2: "[] \<notin> set (?news i)" if "i < length disks" "disks ! i \<noteq> None" for i
            using first [OF that] n2 [of i] pres [OF that] that(1) len1 by simp
          have c3: "fst (snd r) = sz + int (length (pending data))" if "snd (snd r) = None"
            using n3 [OF that] sz'(1) by simp
          have c4: "?news i = map (\<lambda>blk. ?shard blk i) (chunks ?B (pending data))"
            if "snd (snd r) = None" "i < length disks" "disks ! i \<noteq> None" for i
            using n4 [OF that(1), of i] pres [OF that(2,3)] that(2) len1 ch shardsOf_Inr [OF Inr]
            by simp
          show ?thesis
          proof (intro exI [of _ ?news] conjI allI impI)
            show "sentBetween disks disks' ?news" by (rule c1)
          next
            fix i assume "i < length disks" "disks ! i \<noteq> None"
            then show "[] \<notin> set (?news i)" by (rule c2)
          next
            assume "snd (snd r) = None"
            then show "fst (snd r) = sz + int (length (pending data))" by (rule c3)
          next
            fix i assume "snd (snd r) = None" "i < length disks" "disks ! i \<noteq> None"
            then show "?news i = map (\<lambda>blk. ?shard blk i) (chunks ?B (pending data))"
              by (rule c4)
          qed
        qed
      qed
    qed
  qed
qed

lemma erasureCreateFile_streamLoop:
  assumes "wellFormed disks eInfos eInfo"
  shows "erasureCreateFile l mem disks volume path partName data eInfos writeQuorum
         = streamLoop l mem volume path partName eInfos eInfo writeQuorum disks data
             (newHashWriters (length disks)) 0"
proof -
  from assms have "pickValidErasureInfo eInfos = Inr eInfo"
    by (simp add: wellFormed_def)
  moreover from wellFormed_geometry(1) [OF assms] have "0 < BlockSize eInfo"
    by (rule IsValid_Distribution(4))
  ultimately show ?thesis
    by (simp add: erasureCreateFile_def)
qed

lemma streamLoop_empty:
  assumes "pending data = []" and "0 < BlockSize eInfo"
    and "streamLoop l mem volume path partName eInfos eInfo writeQuorum disks data hashWriters 0
         = Inr (disks', mem', r)"
  shows "sentBetween disks disks' (\<lambda>i. if broken data then [] else [[]])"
proof (cases "broken data")
  case True
  with assms(1,2) have "ReadFull data (nat (BlockSize eInfo)) = (0, [], Some ReadFailure, data\<lparr>pending := []\<rparr>)"
    by (simp add: ReadFull_def)
  with assms(3) have "disks' = disks"
    by (simp add: streamLoop.simps)
  with True show ?thesis
    by (simp add: sentBetween_refl)
next
  case False
  with assms(1,2) have "ReadFull data (nat (BlockSize eInfo)) = (0, [], Some EOF, data\<lparr>pending := []\<rparr>)"
    by (simp add: ReadFull_empty)
  with assms(3) obtain hw1 aErr where
    a: "appendFile disks volume path (replicate (length disks) []) (Distribution eInfo)
          hashWriters writeQuorum = Inr (disks', hw1, aErr)"
    by (auto simp: streamLoop.simps split: sum.splits option.splits)
  note sb = appendFile_sentBetween [OF a]
  have "shardOf (replicate (length disks) []) (Distribution eInfo) i = []"
    if "i < length disks" "disks ! i \<noteq> None" for i
    using sb(2) [OF that] by simp
  with sb(1) False show ?thesis
    unfolding sentBetween_def by auto
qed

subsection \<open>A write without faults\<close>

lemma healthy_nth:
  "healthy disks \<Longrightarrow> i < length disks \<Longrightarrow> \<exists>d. disks ! i = Some d \<and> True \<notin> set (faults d)"
  by (auto simp: healthy_def list_all_length split: option.splits)

lemma healthy_succeeds: "True \<notin> set (faults d) \<Longrightarrow> succeeds d"
  by (cases "faults d") (auto simp: succeeds_def)

lemma healthy_failed: "healthy disks \<Longrightarrow> failed disks = 0"
proof -
  assume h: "healthy disks"
  have "\<not> fails disks i" if "i < length disks" for i
    using healthy_nth [OF h that] by (auto simp: fails_def healthy_succeeds)
  then show ?thesis
    by (simp add: failed_def)
qed

lemma healthy_appendFile:
  assumes "healthy disks"
    and "appendFile disks volume path blocks dist hashWriters writeQuorum
         = Inr (disks', hashWriters', err)"
  shows "healthy disks'"
    and "writeQuorum \<le> int (length disks) \<Longrightarrow> err = None"
proof -
  note a = appendFile_Inr [OF assms(2)]
  have "\<exists>d. disks' ! i = Some d \<and> True \<notin> set (faults d)" if "i < length disks" for i
  proof -
    from healthy_nth [OF assms(1) that] obtain d where d: "disks ! i = Some d" "True \<notin> set (faults d)"
      by blast
    from d(2) have "True \<notin> set (tl (faults d))"
      by (cases "faults d") auto
    with a(3) [OF that] d(1) show ?thesis
      by (simp add: served_faults)
  qed
  then have "case disks' ! i of None \<Rightarrow> False | Some d \<Rightarrow> True \<notin> set (faults d)"
    if "i < length disks" for i
    using that by fastforce
  with a(1) show "healthy disks'"
    by (simp add: healthy_def list_all_length)
  assume "writeQuorum \<le> int (length disks)"
  with a(4) healthy_failed [OF assms(1)] show "err = None"
    by simp
qed

lemma ReadFull_sound:
  assumes "ReadFull data len = (n, buf, err, data')" and "\<not> broken data" and "0 < len"
  shows "err = None \<or> err = Some EOF \<or> err = Some ErrUnexpectedEOF"
    and "err \<noteq> Some EOF \<Longrightarrow> buf \<noteq> []" and "\<not> broken data'"
  using assms by (auto simp: ReadFull_def split: if_splits)

lemma streamLoop_healthy:
  assumes wf: "wellFormed disks0 eInfos eInfo"
    and q: "writeQuorum \<le> int (length disks0)"
    and dp: "DataBlocks eInfo + ParityBlocks eInfo \<le> 255"
  shows "healthy disks \<Longrightarrow> length disks = length disks0 \<Longrightarrow> \<not> broken data \<Longrightarrow>
     streamLoop l mem volume path partName eInfos eInfo writeQuorum disks data hashWriters sz
       = Inr (disks', mem', r) \<Longrightarrow>
     \<exists>newEInfos s. r = (Some newEInfos, s, None)"
proof (induction disks data hashWriters sz
    rule: streamLoop_induct [where l = l and eInfo = eInfo and volume = volume and path = path
      and writeQuorum = writeQuorum])
  case (step disks data hashWriters sz)
  note v = IsValid_Distribution [OF wellFormed_geometry(1) [OF wf]]
  from v(4) have B: "0 < nat (BlockSize eInfo)" by simp
  obtain n buf err data' where rd: "ReadFull data (nat (BlockSize eInfo)) = (n, buf, err, data')"
    by (cases "ReadFull data (nat (BlockSize eInfo))") auto
  note rs = ReadFull_sound [OF rd step.prems(3) B]
  note run = step.prems(4) [unfolded streamLoop.simps [of l mem volume path partName eInfos eInfo
        writeQuorum disks data hashWriters sz] rd, simplified]
  have fin: "\<exists>newEInfos s. r' = (Some newEInfos, s, None)"
    if "finalize l mem partName k eInfos eInfo hw s = Inr (m, r')" for k hw s m r'
    using that by (auto simp: finalize_def split: sum.splits prod.splits)
  show ?case
  proof (cases "err = Some EOF")
    case True
    show ?thesis
    proof (cases "sz = 0")
      case sz: True
      from run True sz obtain disks1 hw1 aErr where
        a: "appendFile disks volume path (replicate (length disks) []) (Distribution eInfo)
              hashWriters writeQuorum = Inr (disks1, hw1, aErr)"
        by (auto split: sum.splits)
      from healthy_appendFile(2) [OF step.prems(1) a] q step.prems(2) have "aErr = None"
        by simp
      with run True sz a show ?thesis
        by (auto dest: fin)
    next
      case False
      with run True show ?thesis
        by (auto dest: fin)
    qed
  next
    case False
    with rs(1) have e: "err = None \<or> err = Some ErrUnexpectedEOF"
      by simp
    from rs(2) [OF False] v(5,6) dp
    obtain blocks where en: "encodeData l buf (DataBlocks eInfo) (ParityBlocks eInfo) = Inr blocks"
      using encodeData_total [of "DataBlocks eInfo" "ParityBlocks eInfo" buf l] by blast
    from run False e en obtain disks1 hw1 aErr where
      a: "appendFile disks volume path blocks (Distribution eInfo) hashWriters writeQuorum
            = Inr (disks1, hw1, aErr)"
      by (auto split: sum.splits)
    from healthy_appendFile [OF step.prems(1) a] q step.prems(2)
    have h1: "healthy disks1" and none: "aErr = None"
      by simp_all
    from run False e en a none have rec: "streamLoop l mem volume path partName eInfos eInfo
        writeQuorum disks1 data' hw1 (sz + int n) = Inr (disks', mem', r)"
      by auto
    from appendFile_Inr(1) [OF a] step.prems(2) have "length disks1 = length disks0"
      by simp
    from step.IH [OF rd e en a [unfolded none] h1 this rs(3) rec] show ?thesis .
  qed
qed

lemma chunks_2560:
  assumes "length xs = 2560"
  shows "chunks 1024 xs = [take 1024 xs, take 1024 (drop 1024 xs), drop 2048 xs]"
proof -
  from assms have 1: "xs \<noteq> []" by auto
  from assms have 2: "drop 1024 xs \<noteq> []" by auto
  from assms have 3: "drop 2048 xs \<noteq> []" by auto
  from assms have 4: "take 1024 (drop 2048 xs) = drop 2048 xs" by simp
  from assms have 5: "drop 1024 (drop 2048 xs) = []" by simp
  have "chunks 1024 xs = take 1024 xs # chunks 1024 (drop 1024 xs)"
    using 1 by (simp add: chunks_Cons)
  also have "chunks 1024 (drop 1024 xs)
      = take 1024 (drop 1024 xs) # chunks 1024 (drop 1024 (drop 1024 xs))"
    using 2 by (rule chunks_Cons [rotated]) simp
  also have "drop 1024 (drop 1024 xs) = drop 2048 xs"
    by simp
  also have "chunks 1024 (drop 2048 xs) = take 1024 (drop 2048 xs) # chunks 1024 (drop 1024 (drop 2048 xs))"
    using 3 by (rule chunks_Cons [rotated]) simp
  finally show ?thesis
    by (simp only: 4 5 chunks_Nil)
qed

lemma shardOf_length:
  assumes "encodeData l buf d p = Inr blocks" and "shardOf blocks dist i \<in> set blocks"
  shows "length (shardOf blocks dist i) = (length buf + nat d - 1) div nat d"
  using encodeData_Inr(5) [OF assms(1)] assms(2) by blast

section \<open>Properties\<close>

subsection \<open>The fan-out writer\<close>

text \<open>
  C1.  The claim: a stripe succeeds iff \<open>N - F \<ge> Q\<close>, where \<open>F\<close> counts the endpoints whose
  append returned an error and an absent endpoint counts as a failure.  In
  \<^verbatim>\<open>appendFile\<close> an absent endpoint is skipped and its slot of \<^verbatim>\<open>wErrs\<close> stays \<^verbatim>\<open>nil\<close>, the
  value a successful append leaves there.  With four present endpoints, two absent ones
  and a write quorum of five (\<open>N - F = 4\<close> in the claim's count) the stripe is reported
  as written: the error returned is \<^verbatim>\<open>nil\<close>, after four appends.
\<close>

theorem appendFile_absent_not_counted:
  "appendFile [Some disk0, Some disk0, Some disk0, Some disk0, None, None]
     ''vol'' ''obj/part.1'' [[1], [2], [3], [4], [5], [6]] [1, 2, 3, 4, 5, 6]
     (replicate 6 []) 5
   = Inr ([Some (disk0\<lparr>calls := [(''vol'', ''obj/part.1'', [1], True)]\<rparr>),
           Some (disk0\<lparr>calls := [(''vol'', ''obj/part.1'', [2], True)]\<rparr>),
           Some (disk0\<lparr>calls := [(''vol'', ''obj/part.1'', [3], True)]\<rparr>),
           Some (disk0\<lparr>calls := [(''vol'', ''obj/part.1'', [4], True)]\<rparr>),
           None, None],
          [[1], [2], [3], [4], [], []], None)"
  by (simp add: appendFile_def routine_def AppendFile_def disk0_def Write_def isQuorum_def
      errCount_def upt_rec numeral_eq_Suc)

text \<open>
  C4.  One stripe, with a distribution that is a permutation: the hash at \<open>dist[i] - 1\<close>
  is extended by the shard of endpoint \<open>i\<close> when the append to \<open>i\<close> succeeded (the
  routine feeds the hash after the append returned no error); it is unchanged when
  the append to \<open>i\<close> failed; and every hash that is not the one of a succeeding endpoint
  is unchanged.
\<close>

theorem appendFile_hash_frame:
  assumes "appendFile disks volume path enBlocks distribution hashWriters writeQuorum
           = Inr (disks', hashWriters', err)"
    and "length distribution = length disks" and "distinct distribution"
  shows "length hashWriters' = length hashWriters
    \<and> (\<forall>i<length disks.
          (writes disks i \<longrightarrow>
             hashWriters' ! nat (distribution ! i - 1)
             = hashWriters ! nat (distribution ! i - 1) @ enBlocks ! nat (distribution ! i - 1))
        \<and> (fails disks i \<longrightarrow> nat (distribution ! i - 1) < length hashWriters \<longrightarrow>
             hashWriters' ! nat (distribution ! i - 1) = hashWriters ! nat (distribution ! i - 1)))
    \<and> (\<forall>k<length hashWriters.
          (\<forall>i<length disks. writes disks i \<longrightarrow> nat (distribution ! i - 1) \<noteq> k) \<longrightarrow>
          hashWriters' ! k = hashWriters ! k)"
proof -
  note a = appendFile_Inr [OF assms(1)]
  from assms(2,3) have inj: "inj_on (nth distribution) {0..<length disks}"
    by (auto simp: inj_on_def nth_eq_iff_index_eq)
  have hash: "hashWriters' ! k =
           (if \<exists>i<length disks. writes disks i \<and> nat (distribution ! i - 1) = k
            then hashWriters ! k @ enBlocks ! k else hashWriters ! k)" if "k < length hashWriters" for k
    using a(6) [OF inj that] .
  have present: "1 \<le> distribution ! i \<and> (writes disks i \<longrightarrow> nat (distribution ! i - 1) < length hashWriters)"
    if "i < length disks" "disks ! i \<noteq> None" for i
    using a(5) [OF that] by auto
  have w: "hashWriters' ! nat (distribution ! i - 1)
             = hashWriters ! nat (distribution ! i - 1) @ enBlocks ! nat (distribution ! i - 1)"
    if "i < length disks" "writes disks i" for i
  proof -
    from that have "disks ! i \<noteq> None" by (auto simp: writes_def split: option.splits)
    from present [OF that(1) this] that(2) have "nat (distribution ! i - 1) < length hashWriters"
      by simp
    from hash [OF this] that show ?thesis by auto
  qed
  have f: "hashWriters' ! nat (distribution ! i - 1) = hashWriters ! nat (distribution ! i - 1)"
    if "i < length disks" "fails disks i" "nat (distribution ! i - 1) < length hashWriters" for i
  proof -
    from that have pi: "disks ! i \<noteq> None" and nw: "\<not> writes disks i"
      by (auto simp: fails_def writes_def split: option.splits)
    have "\<not> (\<exists>j<length disks. writes disks j \<and> nat (distribution ! j - 1) = nat (distribution ! i - 1))"
    proof
      assume "\<exists>j<length disks. writes disks j \<and> nat (distribution ! j - 1) = nat (distribution ! i - 1)"
      then obtain j where j: "j < length disks" "writes disks j"
        "nat (distribution ! j - 1) = nat (distribution ! i - 1)" by blast
      from j have "disks ! j \<noteq> None" by (auto simp: writes_def split: option.splits)
      from present [OF j(1) this] present [OF that(1) pi] j(3)
      have "distribution ! j = distribution ! i" by linarith
      with inj j(1) that(1) have "j = i" by (auto simp: inj_on_def)
      with j(2) nw show False by simp
    qed
    with hash [OF that(3)] show ?thesis by simp
  qed
  from a(2) w f hash show ?thesis
    by auto
qed

theorem appendFile_hash_frame_witness:
  "appendFile [Some disk0, Some (disk0\<lparr>faults := [True]\<rparr>), None]
        ''vol'' ''obj'' [[1], [2], [3]] [2, 3, 1] [[7], [8], [9]] 1
      = Inr ([Some (disk0\<lparr>calls := [(''vol'', ''obj'', [2], True)]\<rparr>),
              Some (disk0\<lparr>calls := [(''vol'', ''obj'', [3], False)]\<rparr>),
              None],
             [[7], [8, 2], [9]], None)
   \<and> writes [Some disk0, Some (disk0\<lparr>faults := [True]\<rparr>), None] 0
   \<and> fails [Some disk0, Some (disk0\<lparr>faults := [True]\<rparr>), None] 1
   \<and> [[7], [8, 2], [9]] ! nat ([2, 3, 1] ! 0 - 1) = [[7], [8], [9]] ! nat ([2, 3, 1] ! 0 - 1) @ [2 :: byte]
   \<and> [[7], [8, 2], [9]] ! nat ([2, 3, 1] ! 1 - 1) = [[7], [8], [9 :: byte]] ! nat ([2, 3, 1] ! 1 - 1)"
proof -
  let ?disks = "[Some disk0, Some (disk0\<lparr>faults := [True]\<rparr>), None]"
  have a: "appendFile ?disks ''vol'' ''obj'' [[1], [2], [3]] [2, 3, 1] [[7], [8], [9]] 1
      = Inr ([Some (disk0\<lparr>calls := [(''vol'', ''obj'', [2], True)]\<rparr>),
              Some (disk0\<lparr>calls := [(''vol'', ''obj'', [3], False)]\<rparr>),
              None],
             [[7], [8, 2], [9]], None)"
    by code_simp
  have l: "length [2, 3, 1 :: int] = length ?disks"
    by simp
  have d: "distinct [2, 3, 1 :: int]"
    by simp
  have w: "writes ?disks 0" and f: "fails ?disks 1"
    by (simp_all add: writes_def fails_def succeeds_def disk0_def)
  from appendFile_hash_frame [OF a l d] a w f show ?thesis
    by simp
qed

text \<open>
  C7.  The claim: with the number of endpoints and the quorum fixed, a stripe that
  succeeds with \<open>F\<close> failed endpoints succeeds with any \<open>F' < F\<close>, where an absent
  endpoint counts as a failed one.  \<^verbatim>\<open>appendFile\<close> leaves the slot of
  an absent endpoint in \<^verbatim>\<open>wErrs\<close> at \<^verbatim>\<open>nil\<close>, so its verdict does not follow that count.  With
  three endpoints and a write quorum of three, the same shards, distribution and hashes:
  when all three endpoints are absent (\<open>F = 3\<close>) nothing is appended and the stripe is
  reported as written; when all three are present and the append to one of them fails
  (\<open>F' = 1\<close>) the stripe fails with the write-quorum error.
\<close>

theorem appendFile_quorum_not_monotone:
  "appendFile [None, None, None]
     ''vol'' ''obj'' [[1], [2], [3]] [2, 3, 1] [[], [], []] 3
   = Inr ([None, None, None], [[], [], []], None)
   \<and> appendFile [Some disk0, Some disk0, Some (disk0\<lparr>faults := [True]\<rparr>)]
       ''vol'' ''obj'' [[1], [2], [3]] [2, 3, 1] [[], [], []] 3
     = Inr ([Some (disk0\<lparr>calls := [(''vol'', ''obj'', [2], True)]\<rparr>),
             Some (disk0\<lparr>calls := [(''vol'', ''obj'', [3], True)]\<rparr>),
             Some (disk0\<lparr>calls := [(''vol'', ''obj'', [1], False)]\<rparr>)],
            [[], [2], [3]], Some (WriteQuorumLost ''vol'' ''obj''))"
  by code_simp

subsection \<open>The stream driver and the geometry selector\<close>

text \<open>
  C2.  When no descriptor of \<^verbatim>\<open>eInfos\<close> is valid, \<^verbatim>\<open>erasureCreateFile\<close> fails with
  \<open>GeometryUnavailable\<close>, whatever the stream, the endpoints, the volume, the path and
  the quorum are.
\<close>

theorem erasureCreateFile_no_valid_descriptor:
  assumes "\<forall>e\<in>set eInfos. \<not> IsValid e"
  shows "erasureCreateFile l mem disks volume path partName data eInfos writeQuorum
         = Inl GeometryUnavailable"
  using assms by (simp add: erasureCreateFile_def pick_none)

theorem erasureCreateFile_no_valid_descriptor_witness:
  "\<not> IsValid zeroErasureInfo
   \<and> erasureCreateFile lib0 [] [Some disk0, None] ''vol'' ''obj'' ''part.1''
         \<lparr>pending = [1, 2, 3], broken = False\<rparr> [zeroErasureInfo, zeroErasureInfo] 1
       = Inl GeometryUnavailable"
proof -
  have h: "\<forall>e\<in>set [zeroErasureInfo, zeroErasureInfo]. \<not> IsValid e"
    by (simp add: not_IsValid_zero)
  from not_IsValid_zero erasureCreateFile_no_valid_descriptor [OF h] show ?thesis
    by simp
qed

text \<open>
  C6.  For well-formed input the call returns, absent endpoints stay absent, and every
  present endpoint is sent: exactly one zero-length append when the stream is empty;
  no zero-length append at all when the stream is not empty, and, when the write
  succeeds, one append per block read, \<open>ceil(length / BlockSize)\<close> in all, so none after
  the short final block.
\<close>

theorem erasureCreateFile_empty_object:
  assumes wf: "wellFormed disks eInfos eInfo"
  shows "\<exists>disks' mem' r news.
     erasureCreateFile l mem disks volume path partName data eInfos writeQuorum
       = Inr (disks', mem', r)
     \<and> length disks' = length disks
     \<and> (\<forall>i<length disks.
          (disks ! i = None \<longrightarrow> disks' ! i = None)
          \<and> (\<forall>d. disks ! i = Some d \<longrightarrow>
               (\<exists>d'. disks' ! i = Some d' \<and> sent d' = sent d @ news i
                  \<and> (pending data = [] \<and> \<not> broken data \<longrightarrow> news i = [[]])
                  \<and> (pending data \<noteq> [] \<longrightarrow>
                       [] \<notin> set (news i)
                       \<and> (snd (snd r) = None \<longrightarrow>
                            length (news i)
                            = (length (pending data) + nat (BlockSize eInfo) - 1)
                                div nat (BlockSize eInfo))))))"
proof -
  let ?B = "nat (BlockSize eInfo)"
  from wellFormed_geometry(1) [OF wf] have B: "0 < BlockSize eInfo"
    by (rule IsValid_Distribution(4))
  note eq = erasureCreateFile_streamLoop [OF wf, where l = l and mem = mem and volume = volume
      and path = path and partName = partName and data = data and writeQuorum = writeQuorum]
  from streamLoop_total [OF wf, where disks = disks
      and hashWriters = "newHashWriters (length disks)" and l = l and mem = mem
      and volume = volume and path = path and partName = partName
      and writeQuorum = writeQuorum and data = data and sz = 0]
  obtain disks' mem' r where
    run: "streamLoop l mem volume path partName eInfos eInfo writeQuorum disks data
             (newHashWriters (length disks)) 0 = Inr (disks', mem', r)"
    by (auto simp: newHashWriters_def)
  have "\<exists>news. sentBetween disks disks' news
     \<and> (\<forall>i<length disks. disks ! i \<noteq> None \<longrightarrow>
           (pending data = [] \<and> \<not> broken data \<longrightarrow> news i = [[]])
           \<and> (pending data \<noteq> [] \<longrightarrow>
                [] \<notin> set (news i)
                \<and> (snd (snd r) = None \<longrightarrow> length (news i) = (length (pending data) + ?B - 1) div ?B)))"
  proof (cases "pending data = []")
    case True
    from streamLoop_empty [OF True B run] True show ?thesis
      by (intro exI [of _ "\<lambda>i. if broken data then [] else [[]]"]) simp
  next
    case False
    from streamLoop_sent [OF run] False obtain news where
      n: "sentBetween disks disks' news"
        "\<And>i. i < length disks \<Longrightarrow> disks ! i \<noteq> None \<Longrightarrow> [] \<notin> set (news i)"
        "\<And>i. snd (snd r) = None \<Longrightarrow> i < length disks \<Longrightarrow> disks ! i \<noteq> None \<Longrightarrow>
           news i = map (\<lambda>blk. shardOf (shardsOf l eInfo blk) (Distribution eInfo) i)
                      (chunks ?B (pending data))"
      by auto
    have "length (news i) = (length (pending data) + ?B - 1) div ?B"
      if "snd (snd r) = None" "i < length disks" "disks ! i \<noteq> None" for i
      using n(3) [OF that] B by (simp add: length_chunks)
    with n(1,2) False show ?thesis
      by (intro exI [of _ news]) simp
  qed
  then obtain news where sb: "sentBetween disks disks' news"
    and props: "\<And>i. i < length disks \<Longrightarrow> disks ! i \<noteq> None \<Longrightarrow>
           (pending data = [] \<and> \<not> broken data \<longrightarrow> news i = [[]])
           \<and> (pending data \<noteq> [] \<longrightarrow>
                [] \<notin> set (news i)
                \<and> (snd (snd r) = None \<longrightarrow> length (news i) = (length (pending data) + ?B - 1) div ?B))"
    by blast
  show ?thesis
  proof (intro exI [of _ disks'] exI [of _ mem'] exI [of _ r] exI [of _ news] conjI allI impI)
    from eq run show "erasureCreateFile l mem disks volume path partName data eInfos writeQuorum
        = Inr (disks', mem', r)"
      by simp
    from sb show "length disks' = length disks"
      by (simp add: sentBetween_def)
  next
    fix i assume "i < length disks" "disks ! i = None"
    with sb show "disks' ! i = None"
      unfolding sentBetween_def by blast
  next
    fix i d assume i: "i < length disks" "disks ! i = Some d"
    with sb obtain d' where "disks' ! i = Some d'" "sent d' = sent d @ news i"
      unfolding sentBetween_def by blast
    with props [of i] i show "\<exists>d'. disks' ! i = Some d' \<and> sent d' = sent d @ news i
                  \<and> (pending data = [] \<and> \<not> broken data \<longrightarrow> news i = [[]])
                  \<and> (pending data \<noteq> [] \<longrightarrow>
                       [] \<notin> set (news i)
                       \<and> (snd (snd r) = None \<longrightarrow>
                            length (news i) = (length (pending data) + ?B - 1) div ?B))"
      by simp
  qed
qed

theorem erasureCreateFile_empty_object_witness:
  "erasureCreateFile lib0 [] [Some disk0, None, Some disk0]
     ''vol'' ''obj'' ''part.1'' \<lparr>pending = [], broken = False\<rparr> [eInfo3, eInfo3, eInfo3] 2
   = Inr ([Some \<lparr>faults = [], calls = [(''vol'', ''obj'', [], True)]\<rparr>, None,
           Some \<lparr>faults = [], calls = [(''vol'', ''obj'', [], True)]\<rparr>],
          [[\<lparr>Name = ''part.1'', Algorithm = ''sha512'', Hash = []\<rparr>],
           [\<lparr>Name = ''part.1'', Algorithm = ''sha512'', Hash = []\<rparr>],
           [\<lparr>Name = ''part.1'', Algorithm = ''sha512'', Hash = []\<rparr>]],
          Some [eInfo3\<lparr>Checksum := \<lparr>Array = 0, Offset = 0, Len = 1, Cap = 1\<rparr>\<rparr>,
                eInfo3\<lparr>Checksum := \<lparr>Array = 1, Offset = 0, Len = 1, Cap = 1\<rparr>\<rparr>,
                eInfo3\<lparr>Checksum := \<lparr>Array = 2, Offset = 0, Len = 1, Cap = 1\<rparr>\<rparr>],
          0, None)"
proof -
  have wf: "wellFormed [Some disk0, None, Some disk0] [eInfo3, eInfo3, eInfo3] eInfo3"
    by code_simp
  have run: "erasureCreateFile lib0 [] [Some disk0, None, Some disk0]
     ''vol'' ''obj'' ''part.1'' \<lparr>pending = [], broken = False\<rparr> [eInfo3, eInfo3, eInfo3] 2
   = Inr ([Some \<lparr>faults = [], calls = [(''vol'', ''obj'', [], True)]\<rparr>, None,
           Some \<lparr>faults = [], calls = [(''vol'', ''obj'', [], True)]\<rparr>],
          [[\<lparr>Name = ''part.1'', Algorithm = ''sha512'', Hash = []\<rparr>],
           [\<lparr>Name = ''part.1'', Algorithm = ''sha512'', Hash = []\<rparr>],
           [\<lparr>Name = ''part.1'', Algorithm = ''sha512'', Hash = []\<rparr>]],
          Some [eInfo3\<lparr>Checksum := \<lparr>Array = 0, Offset = 0, Len = 1, Cap = 1\<rparr>\<rparr>,
                eInfo3\<lparr>Checksum := \<lparr>Array = 1, Offset = 0, Len = 1, Cap = 1\<rparr>\<rparr>,
                eInfo3\<lparr>Checksum := \<lparr>Array = 2, Offset = 0, Len = 1, Cap = 1\<rparr>\<rparr>],
          0, None)"
    by code_simp
  from erasureCreateFile_empty_object [OF wf, where l = lib0 and mem = "[]"
      and volume = "''vol''" and path = "''obj''" and partName = "''part.1''"
      and data = "\<lparr>pending = [], broken = False\<rparr>" and writeQuorum = 2]
  obtain disks' mem' r where "erasureCreateFile lib0 [] [Some disk0, None, Some disk0]
     ''vol'' ''obj'' ''part.1'' \<lparr>pending = [], broken = False\<rparr> [eInfo3, eInfo3, eInfo3] 2
     = Inr (disks', mem', r)"
    by blast
  with run show ?thesis
    by simp
qed

text \<open>
  C8.  Geometry \<open>(4, 2, 1024)\<close>, six present endpoints none of whose appends fails, a
  stream of 2560 bytes, write quorum 5: the write succeeds and returns the size 2560;
  the blocks read are of 1024, 1024 and 512 bytes; every shard of a block of \<open>n\<close> bytes
  has \<open>ceil(n / 4)\<close> bytes; each endpoint is sent three shards, of 256, 256 and 128
  bytes.
\<close>

theorem erasureCreateFile_scenario_B:
  assumes wf: "wellFormed disks eInfos eInfo"
    and geo: "DataBlocks eInfo = 4" "ParityBlocks eInfo = 2" "BlockSize eInfo = 1024"
    and h: "healthy disks"
    and stream: "length (pending data) = 2560" "\<not> broken data"
  shows "\<exists>disks' mem' newEInfos.
     erasureCreateFile l mem disks volume path partName data eInfos 5
       = Inr (disks', mem', Some newEInfos, 2560, None)
     \<and> length disks = 6 \<and> length disks' = 6
     \<and> map length (chunks 1024 (pending data)) = [1024, 1024, 512]
     \<and> (\<forall>blk\<in>set (chunks 1024 (pending data)). \<forall>b\<in>set (shardsOf l eInfo blk).
          length b = (length blk + 4 - 1) div 4)
     \<and> (\<forall>i<6. \<exists>d d'.
          disks ! i = Some d \<and> disks' ! i = Some d'
          \<and> sent d' = sent d @ map (\<lambda>blk. shardOf (shardsOf l eInfo blk) (Distribution eInfo) i)
                                  (chunks 1024 (pending data))
          \<and> map length (map (\<lambda>blk. shardOf (shardsOf l eInfo blk) (Distribution eInfo) i)
                           (chunks 1024 (pending data)))
              = [256, 256, 128])"
proof -
  note g = wellFormed_geometry [OF wf]
  from g(6) geo have N: "length disks = 6"
    by simp
  note eq = erasureCreateFile_streamLoop [OF wf, where l = l and mem = mem and volume = volume
      and path = path and partName = partName and data = data and writeQuorum = 5]
  from streamLoop_total [OF wf, where disks = disks
      and hashWriters = "newHashWriters (length disks)" and l = l and mem = mem
      and volume = volume and path = path and partName = partName
      and writeQuorum = 5 and data = data and sz = 0]
  obtain disks' mem' r where
    run: "streamLoop l mem volume path partName eInfos eInfo 5 disks data
             (newHashWriters (length disks)) 0 = Inr (disks', mem', r)"
    by (auto simp: newHashWriters_def)
  from streamLoop_healthy [OF wf _ _ h refl stream(2) run] N geo
  obtain newEInfos s where r: "r = (Some newEInfos, s, None)"
    by auto
  from stream(1) have ne: "pending data \<noteq> []"
    by auto
  from streamLoop_sent [OF run] ne r stream(1) obtain news where
    sb: "sentBetween disks disks' news"
    and s: "s = 2560"
    and news: "\<And>i. i < length disks \<Longrightarrow> disks ! i \<noteq> None \<Longrightarrow>
           news i = map (\<lambda>blk. shardOf (shardsOf l eInfo blk) (Distribution eInfo) i)
                      (chunks (nat (BlockSize eInfo)) (pending data))"
    by auto
  note ch = chunks_2560 [OF stream(1)]
  have lens: "map length (chunks 1024 (pending data)) = [1024, 1024, 512]"
    using stream(1) by (simp add: ch)
  have shard: "length (shardOf (shardsOf l eInfo blk) (Distribution eInfo) i)
      = (length blk + 3) div 4"
    if i: "i < 6" and blk: "blk \<noteq> []" for i blk
  proof -
    from encodeData_total [of "DataBlocks eInfo" "ParityBlocks eInfo" blk l] geo blk
    obtain blocks where en: "encodeData l blk (DataBlocks eInfo) (ParityBlocks eInfo) = Inr blocks"
      by auto
    from encodeData_Inr(4) [OF en] geo have "length blocks = 6"
      by simp
    moreover from g(4) [of i] i N have "nat (Distribution eInfo ! i - 1) < 6"
      by linarith
    ultimately have "shardOf blocks (Distribution eInfo) i \<in> set blocks"
      by (simp add: shardOf_def)
    from shardOf_length [OF en this] geo shardsOf_Inr [OF en] show ?thesis
      by simp
  qed
  have per: "\<exists>d d'.
          disks ! i = Some d \<and> disks' ! i = Some d'
          \<and> sent d' = sent d @ map (\<lambda>blk. shardOf (shardsOf l eInfo blk) (Distribution eInfo) i)
                                  (chunks 1024 (pending data))
          \<and> map length (map (\<lambda>blk. shardOf (shardsOf l eInfo blk) (Distribution eInfo) i)
                           (chunks 1024 (pending data)))
              = [256, 256, 128]" if i: "i < 6" for i
  proof -
    from healthy_nth [OF h, of i] i N obtain d where d: "disks ! i = Some d"
      by auto
    with sb i N obtain d' where d': "disks' ! i = Some d'" "sent d' = sent d @ news i"
      unfolding sentBetween_def by force
    from news [of i] i N d geo have ni: "news i
        = map (\<lambda>blk. shardOf (shardsOf l eInfo blk) (Distribution eInfo) i)
            (chunks 1024 (pending data))"
      by simp
    from stream(1) have nz: "take 1024 (pending data) \<noteq> []"
      "take 1024 (drop 1024 (pending data)) \<noteq> []" "drop 2048 (pending data) \<noteq> []"
      by auto
    have "map length (map (\<lambda>blk. shardOf (shardsOf l eInfo blk) (Distribution eInfo) i)
                           (chunks 1024 (pending data))) = [256, 256, 128]"
      using stream(1) by (simp add: ch shard [OF i nz(1)] shard [OF i nz(2)] shard [OF i nz(3)])
    with d d' ni show ?thesis
      by simp
  qed
  have ceil: "length b = (length blk + 4 - 1) div 4"
    if blk: "blk \<in> set (chunks 1024 (pending data))" and b: "b \<in> set (shardsOf l eInfo blk)"
    for blk b
  proof -
    from blk stream(1) have "blk \<noteq> []"
      unfolding ch by auto
    with encodeData_total [of "DataBlocks eInfo" "ParityBlocks eInfo" blk l] geo
    obtain blocks where en: "encodeData l blk (DataBlocks eInfo) (ParityBlocks eInfo) = Inr blocks"
      by auto
    from encodeData_Inr(5) [OF en] b shardsOf_Inr [OF en] geo show ?thesis
      by simp
  qed
  from sb N have N': "length disks' = 6"
    by (simp add: sentBetween_def)
  from eq run r s have res: "erasureCreateFile l mem disks volume path partName data eInfos 5
       = Inr (disks', mem', Some newEInfos, 2560, None)"
    by simp
  show ?thesis
  proof (intro exI [of _ disks'] exI [of _ mem'] exI [of _ newEInfos] conjI allI impI)
    show "erasureCreateFile l mem disks volume path partName data eInfos 5
       = Inr (disks', mem', Some newEInfos, 2560, None)"
      by (rule res)
    show "length disks = 6" by (rule N)
    show "length disks' = 6" by (rule N')
    show "map length (chunks 1024 (pending data)) = [1024, 1024, 512]" by (rule lens)
  next
    show "\<forall>blk\<in>set (chunks 1024 (pending data)). \<forall>b\<in>set (shardsOf l eInfo blk).
          length b = (length blk + 4 - 1) div 4"
      using ceil by blast
  next
    fix i :: nat assume "i < 6"
    then show "\<exists>d d'.
          disks ! i = Some d \<and> disks' ! i = Some d'
          \<and> sent d' = sent d @ map (\<lambda>blk. shardOf (shardsOf l eInfo blk) (Distribution eInfo) i)
                                  (chunks 1024 (pending data))
          \<and> map length (map (\<lambda>blk. shardOf (shardsOf l eInfo blk) (Distribution eInfo) i)
                           (chunks 1024 (pending data)))
              = [256, 256, 128]"
      by (rule per)
  qed
qed

theorem erasureCreateFile_scenario_B_witness:
  "healthy (replicate 6 (Some disk0))
   \<and> length (pending \<lparr>pending = replicate 2560 (0 :: byte), broken = False\<rparr>) = 2560
   \<and> (\<exists>disks' mem' newEInfos.
        erasureCreateFile lib0 [] (replicate 6 (Some disk0)) ''vol'' ''obj'' ''part.1''
          \<lparr>pending = replicate 2560 0, broken = False\<rparr> (replicate 6 eInfo6) 5
        = Inr (disks', mem', Some newEInfos, 2560, None))"
proof -
  have wf: "wellFormed (replicate 6 (Some disk0)) (replicate 6 eInfo6) eInfo6"
    by code_simp
  have geo: "DataBlocks eInfo6 = 4" "ParityBlocks eInfo6 = 2" "BlockSize eInfo6 = 1024"
    by (simp_all add: eInfo6_def)
  have h: "healthy (replicate 6 (Some disk0))"
    by (simp add: healthy_def disk0_def list_all_iff)
  have s: "length (pending \<lparr>pending = replicate 2560 (0 :: byte), broken = False\<rparr>) = 2560"
    "\<not> broken \<lparr>pending = replicate 2560 (0 :: byte), broken = False\<rparr>"
    by simp_all
  from erasureCreateFile_scenario_B [OF wf geo h s, where l = lib0 and mem = "[]"
      and volume = "''vol''" and path = "''obj''" and partName = "''part.1''"]
  have "\<exists>disks' mem' newEInfos.
        erasureCreateFile lib0 [] (replicate 6 (Some disk0)) ''vol'' ''obj'' ''part.1''
          \<lparr>pending = replicate 2560 0, broken = False\<rparr> (replicate 6 eInfo6) 5
        = Inr (disks', mem', Some newEInfos, 2560, None)"
    by blast
  with h s(1) show ?thesis
    by (intro conjI)
qed

text \<open>
  C10.  Whenever \<^verbatim>\<open>erasureCreateFile\<close> returns an error, the descriptors returned are
  \<^verbatim>\<open>nil\<close> and the size returned is 0, also after stripes were appended and bytes were
  read.
\<close>

theorem erasureCreateFile_error_returns_nil_0:
  assumes "erasureCreateFile l mem disks volume path partName data eInfos writeQuorum
           = Inr (disks', mem', newEInfos, sz, Some err)"
  shows "newEInfos = None \<and> sz = 0"
  using assms
  by (auto simp: erasureCreateFile_def split: sum.splits if_splits dest: streamLoop_error)

theorem erasureCreateFile_error_returns_nil_0_witness:
  "erasureCreateFile lib0 []
     [Some disk0, Some (disk0\<lparr>faults := [False, True]\<rparr>),
      Some (disk0\<lparr>faults := [False, True]\<rparr>)]
     ''vol'' ''obj'' ''part.1'' \<lparr>pending = [1, 2, 3, 4, 5, 6], broken = False\<rparr>
     [eInfo3, zeroErasureInfo, eInfo3] 2
   = Inr ([Some \<lparr>faults = [],
                 calls = [(''vol'', ''obj'', [3, 4], True), (''vol'', ''obj'', [6], True)]\<rparr>,
           Some \<lparr>faults = [],
                 calls = [(''vol'', ''obj'', [2, 6], True), (''vol'', ''obj'', [3], False)]\<rparr>,
           Some \<lparr>faults = [],
                 calls = [(''vol'', ''obj'', [1, 2], True), (''vol'', ''obj'', [5], False)]\<rparr>],
          [], None, 0, Some (WriteQuorumLost ''vol'' ''obj''))"
proof -
  have h: "erasureCreateFile lib0 []
     [Some disk0, Some (disk0\<lparr>faults := [False, True]\<rparr>),
      Some (disk0\<lparr>faults := [False, True]\<rparr>)]
     ''vol'' ''obj'' ''part.1'' \<lparr>pending = [1, 2, 3, 4, 5, 6], broken = False\<rparr>
     [eInfo3, zeroErasureInfo, eInfo3] 2
   = Inr ([Some \<lparr>faults = [],
                 calls = [(''vol'', ''obj'', [3, 4], True), (''vol'', ''obj'', [6], True)]\<rparr>,
           Some \<lparr>faults = [],
                 calls = [(''vol'', ''obj'', [2, 6], True), (''vol'', ''obj'', [3], False)]\<rparr>,
           Some \<lparr>faults = [],
                 calls = [(''vol'', ''obj'', [1, 2], True), (''vol'', ''obj'', [5], False)]\<rparr>],
          [], fst (None, 0::int), snd (None, 0::int), Some (WriteQuorumLost ''vol'' ''obj''))"
    by code_simp
  from erasureCreateFile_error_returns_nil_0 [OF h] h show ?thesis
    by simp
qed

subsection \<open>Hashes and checksums\<close>

text \<open>
  C5.  The claim: the finalizer builds \<^verbatim>\<open>checksums[dist[i] - 1]\<close> from the part name,
  \<open>sha512\<close> and the hexadecimal digest of the hash at \<open>dist[i] - 1\<close>, and the output
  descriptor of a valid input descriptor is a copy of it with that entry appended to its
  checksum list.  The entries are built as claimed.  The output descriptor is made by
  assignment, which copies the header of the checksum list and not its array, and the
  entry is appended through the copy.  When input descriptors share the array of their
  checksum lists and the array has room, every \<^verbatim>\<open>append\<close> writes the same position of it.
  Here the three input descriptors are one descriptor, whose list has one entry in an
  array of four; the hashes hold the bytes 1, 2 and 3 and the distribution is
  \<open>[2, 3, 1]\<close>.  The entries have the digests 01, 02 and 03, and the claim appends 02 to
  the list of descriptor 0, 03 to that of descriptor 1 and 01 to that of descriptor 2.
  The three descriptors returned have one header, and the list read through it is the
  old entry followed by the entry of digest 01, the last one written.
\<close>

theorem finalize_shared_checksum_array:
  "saveCheckSums lib0 ''part.2'' eInfo3_part1 [[1], [2], [3]] [0..<3]
     (replicate 3 zeroCheckSumInfo)
   = Inr [\<lparr>Name = ''part.2'', Algorithm = ''sha512'', Hash = ''01''\<rparr>,
          \<lparr>Name = ''part.2'', Algorithm = ''sha512'', Hash = ''02''\<rparr>,
          \<lparr>Name = ''part.2'', Algorithm = ''sha512'', Hash = ''03''\<rparr>]
   \<and> finalize lib0 mem_part1 ''part.2'' 3 [eInfo3_part1, eInfo3_part1, eInfo3_part1]
       eInfo3_part1 [[1], [2], [3]] 7
     = Inr ([[part1, \<lparr>Name = ''part.2'', Algorithm = ''sha512'', Hash = ''01''\<rparr>,
              zeroCheckSumInfo, zeroCheckSumInfo]],
            Some [eInfo3\<lparr>Checksum := \<lparr>Array = 0, Offset = 0, Len = 2, Cap = 4\<rparr>\<rparr>,
                  eInfo3\<lparr>Checksum := \<lparr>Array = 0, Offset = 0, Len = 2, Cap = 4\<rparr>\<rparr>,
                  eInfo3\<lparr>Checksum := \<lparr>Array = 0, Offset = 0, Len = 2, Cap = 4\<rparr>\<rparr>],
            7, None)
   \<and> elems [[part1, \<lparr>Name = ''part.2'', Algorithm = ''sha512'', Hash = ''01''\<rparr>,
              zeroCheckSumInfo, zeroCheckSumInfo]]
         \<lparr>Array = 0, Offset = 0, Len = 2, Cap = 4\<rparr>
     = [part1, \<lparr>Name = ''part.2'', Algorithm = ''sha512'', Hash = ''01''\<rparr>]"
  by code_simp

text \<open>
  C3.  The claim: for an endpoint all of whose appends succeeded, the digest recorded in
  its output descriptor is the SHA-512 of the shard bytes appended to it, in stripe
  order.  The hashes are fed as claimed, but the digests reach the descriptors through
  the \<^verbatim>\<open>append\<close> of the finalizer, which writes into the array behind a copied header.
  Here three endpoints take every append, the stream is the
  bytes 1 to 6 and the three input descriptors are one descriptor, whose checksum list
  has one entry in an array of four.  Endpoint 0 is sent the shards \<open>[3, 4]\<close> and \<open>[6]\<close>,
  endpoint 1 the shards \<open>[2, 6]\<close> and \<open>[3]\<close>, endpoint 2 the shards \<open>[1, 2]\<close> and \<open>[5]\<close>.
  With a digest that returns its input, the digest of endpoint 0 is 030406.  The three
  descriptors returned have one header, and the list read through it ends with the entry
  of digest 010205, which is the digest of endpoint 2.
\<close>

theorem erasureCreateFile_digest_of_last_endpoint:
  "erasureCreateFile lib0 mem_part1 [Some disk0, Some disk0, Some disk0]
     ''vol'' ''obj'' ''part.2'' \<lparr>pending = [1, 2, 3, 4, 5, 6], broken = False\<rparr>
     [eInfo3_part1, eInfo3_part1, eInfo3_part1] 2
   = Inr ([Some \<lparr>faults = [],
                 calls = [(''vol'', ''obj'', [3, 4], True), (''vol'', ''obj'', [6], True)]\<rparr>,
           Some \<lparr>faults = [],
                 calls = [(''vol'', ''obj'', [2, 6], True), (''vol'', ''obj'', [3], True)]\<rparr>,
           Some \<lparr>faults = [],
                 calls = [(''vol'', ''obj'', [1, 2], True), (''vol'', ''obj'', [5], True)]\<rparr>],
          [[part1, \<lparr>Name = ''part.2'', Algorithm = ''sha512'', Hash = ''010205''\<rparr>,
            zeroCheckSumInfo, zeroCheckSumInfo]],
          Some [eInfo3\<lparr>Checksum := \<lparr>Array = 0, Offset = 0, Len = 2, Cap = 4\<rparr>\<rparr>,
                eInfo3\<lparr>Checksum := \<lparr>Array = 0, Offset = 0, Len = 2, Cap = 4\<rparr>\<rparr>,
                eInfo3\<lparr>Checksum := \<lparr>Array = 0, Offset = 0, Len = 2, Cap = 4\<rparr>\<rparr>],
          6, None)
   \<and> elems [[part1, \<lparr>Name = ''part.2'', Algorithm = ''sha512'', Hash = ''010205''\<rparr>,
              zeroCheckSumInfo, zeroCheckSumInfo]]
         \<lparr>Array = 0, Offset = 0, Len = 2, Cap = 4\<rparr>
     = [part1, \<lparr>Name = ''part.2'', Algorithm = ''sha512'', Hash = ''010205''\<rparr>]
   \<and> EncodeToString (sha512 lib0
         (concat (sent \<lparr>faults = [],
            calls = [(''vol'', ''obj'', [3, 4], True), (''vol'', ''obj'', [6], True)]\<rparr>)))
     = ''030406''"
  by code_simp

subsection \<open>Path and volume names\<close>

text \<open>
  C9.  \<open>isValidPath path\<close> is true iff \<open>path\<close> is non-empty, at most 4096 bytes long and
  valid UTF-8 (as \<^verbatim>\<open>utf8.ValidString\<close> decides it); \<open>isValidVolname volname\<close> is true iff
  \<open>volname\<close> is between 3 and 63 bytes long and contains no \<open>/\<close>.
\<close>

theorem isValid_names:
  "isValidPath path = (path \<noteq> [] \<and> length path \<le> 4096 \<and> ValidString path)
   \<and> isValidVolname volname =
       (3 \<le> length volname \<and> length volname \<le> 63 \<and> CHR ''/'' \<notin> set volname)"
  by (auto simp: isValidPath_def isValidVolname_def pathMax_def ContainsAny_def
      list_ex_iff)

theorem isValid_names_witness:
  "isValidPath [CHR ''a'', CHR 0xC3, CHR ''(''] = False
   \<and> isValidPath [CHR ''a'', CHR 0xC3, CHR 0xA9] = True
   \<and> isValidVolname ''a/b'' = False \<and> isValidVolname ''vol'' = True"
  using isValid_names [of "[CHR ''a'', CHR 0xC3, CHR 0xA9]" "''vol''"]
    isValid_names [of "[CHR ''a'', CHR 0xC3, CHR ''('']" "''a/b''"]
  by (simp add: first_def outside_def locb_def hicb_def)

end
